theory Spec2Isabelle
  imports Main "HOL-Library.Word" "HOL-Library.Char_ord" "HOL-Library.Monad_Syntax"
begin

unbundle bit_operations_syntax

section \<open>Go values: errors, bytes, strings\<close>

text \<open>
  A Go \<^verbatim>\<open>string\<close> is a sequence of bytes, and so is an Isabelle \<^typ>\<open>string\<close>.
  A Go \<^verbatim>\<open>error\<close> is either a base error with a message, or an error wrapped by
  \<^verbatim>\<open>fmt.Errorf("<text>: %w", err)\<close>; \<^verbatim>\<open>nil\<close> is \<open>None\<close> of \<open>error option\<close>.
\<close>

datatype error = Err string | Wrapf string error

type_synonym byte = "8 word"

definition CR :: char where "CR = CHR 0x0D"
definition LF :: char where "LF = CHR 0x0A"
definition DQ :: char where "DQ = CHR 0x22"

section \<open>The regular expressions of \<^verbatim>\<open>processLogs\<close>\<close>

text \<open>
  Go's \<^verbatim>\<open>regexp\<close> package finds the leftmost match and, among the matches that start
  there, the one a backtracking matcher finds first: an alternation prefers its left
  branch, \<^verbatim>\<open>+\<close> prefers one more iteration. The matcher \<open>ms\<close> lists, in that order of
  preference, every way a pattern matches a prefix of the input; each way is the input
  left over and the capture groups set so far (the latest binding of a group first).

  Only the constructs of the two patterns of the source are modelled. Go matches
  code points of the UTF-8 input, the model matches bytes. For these two patterns that is
  the same: \<^verbatim>\<open>\d\<close> and \<^verbatim>\<open>\w\<close> are ASCII-only in Go, every literal and every
  excluded character is ASCII, and an ASCII byte is never part of a longer UTF-8 sequence
  (valid or not), so a run of bytes other than a given ASCII character is a run of whole
  code points.
\<close>

datatype cclass = Only char | Except char | Digit | WordChar

fun cmatch :: "cclass \<Rightarrow> char \<Rightarrow> bool" where
  "cmatch (Only d) x = (x = d)"
| "cmatch (Except d) x = (x \<noteq> d)"
| "cmatch Digit x = (CHR ''0'' \<le> x \<and> x \<le> CHR ''9'')"
| "cmatch WordChar x =
     ((CHR ''0'' \<le> x \<and> x \<le> CHR ''9'') \<or> (CHR ''A'' \<le> x \<and> x \<le> CHR ''Z'')
      \<or> x = CHR ''_'' \<or> (CHR ''a'' \<le> x \<and> x \<le> CHR ''z''))"

datatype regex =
    Lit string
  | Cls cclass
  | Cat regex regex
  | Alt regex regex
  | Plus regex
  | Grp nat regex

type_synonym caps = "(nat \<times> string) list"

function ms :: "regex \<Rightarrow> string \<Rightarrow> caps \<Rightarrow> (string \<times> caps) list" where
  "ms (Lit l) s c = (if take (length l) s = l then [(drop (length l) s, c)] else [])"
| "ms (Cls k) s c = (case s of [] \<Rightarrow> [] | x # xs \<Rightarrow> if cmatch k x then [(xs, c)] else [])"
| "ms (Cat a b) s c = concat (map (\<lambda>(s', c'). ms b s' c') (ms a s c))"
| "ms (Alt a b) s c = ms a s c @ ms b s c"
| "ms (Plus a) s c = concat (map (\<lambda>(s', c').
      (if length s' < length s then ms (Plus a) s' c' else []) @ [(s', c')]) (ms a s c))"
| "ms (Grp i a) s c =
     map (\<lambda>(s', c'). (s', (i, take (length s - length s') s) # c')) (ms a s c)"
  by pat_completeness auto
termination
  by (relation "measures [\<lambda>(r, s, c). size r, \<lambda>(r, s, c). length s]") auto

declare ms.simps(5) [simp del]

text \<open>The number of capture groups (\<^verbatim>\<open>NumSubexp\<close>).\<close>

fun NumSubexp :: "regex \<Rightarrow> nat" where
  "NumSubexp (Lit l) = 0"
| "NumSubexp (Cls k) = 0"
| "NumSubexp (Cat a b) = NumSubexp a + NumSubexp b"
| "NumSubexp (Alt a b) = NumSubexp a + NumSubexp b"
| "NumSubexp (Plus a) = NumSubexp a"
| "NumSubexp (Grp i a) = Suc (NumSubexp a)"

text \<open>
  The unanchored search: the first start position, from the left, at which the pattern
  matches; there, the preferred match. The result is the matched text and the groups.
\<close>

fun search :: "regex \<Rightarrow> string \<Rightarrow> (string \<times> caps) option" where
  "search r [] = (case ms r [] [] of [] \<Rightarrow> None | (rest, c) # _ \<Rightarrow> Some ([], c))"
| "search r (x # xs) =
     (case ms r (x # xs) [] of
        [] \<Rightarrow> search r xs
      | (rest, c) # _ \<Rightarrow> Some (take (length (x # xs) - length rest) (x # xs), c))"

text \<open>
  \<^verbatim>\<open>FindStringSubmatch\<close>: \<^verbatim>\<open>nil\<close> (length 0) when there is no match, otherwise the
  matched text followed by the text of each group, the empty string for a group that
  took no part in the match.
\<close>

definition FindStringSubmatch :: "regex \<Rightarrow> string \<Rightarrow> string list" where
  "FindStringSubmatch r s =
     (case search r s of
        None \<Rightarrow> []
      | Some (whole, c) \<Rightarrow>
          whole # map (\<lambda>i. case map_of c i of None \<Rightarrow> [] | Some g \<Rightarrow> g) [1..<Suc (NumSubexp r)])"

text \<open>A class repeated a fixed number of times, as \<^verbatim>\<open>\d{2}\<close>.\<close>

fun Rep :: "nat \<Rightarrow> regex \<Rightarrow> regex" where
  "Rep 0 r = Lit []"
| "Rep (Suc n) r = Cat r (Rep n r)"

text \<open>
  Line 88: \<^verbatim>\<open>"(GET|POST|PUT|DELETE|HEAD|OPTIONS|PATCH) ([^ ]+) ([^"]+)"\<close>
\<close>

definition methods :: "string list" where
  "methods = [''GET'', ''POST'', ''PUT'', ''DELETE'', ''HEAD'', ''OPTIONS'', ''PATCH'']"

definition re :: regex where
  "re = Cat (Lit [DQ])
       (Cat (Grp 1 (Alt (Lit ''GET'') (Alt (Lit ''POST'') (Alt (Lit ''PUT'') (Alt (Lit ''DELETE'')
              (Alt (Lit ''HEAD'') (Alt (Lit ''OPTIONS'') (Lit ''PATCH''))))))))
       (Cat (Lit '' '')
       (Cat (Grp 2 (Plus (Cls (Except CHR '' ''))))
       (Cat (Lit '' '')
       (Cat (Grp 3 (Plus (Cls (Except DQ))))
            (Lit [DQ]))))))"

text \<open>
  Line 96: \<^verbatim>\<open>\[(\d{2}/\w{3}/\d{4}:\d{2}:\d{2}:\d{2}) [^\]]+\]\<close>
\<close>

definition timeRe :: regex where
  "timeRe = Cat (Lit ''['')
           (Cat (Grp 1 (Cat (Rep 2 (Cls Digit)) (Cat (Lit ''/'')
                       (Cat (Rep 3 (Cls WordChar)) (Cat (Lit ''/'')
                       (Cat (Rep 4 (Cls Digit)) (Cat (Lit '':'')
                       (Cat (Rep 2 (Cls Digit)) (Cat (Lit '':'')
                       (Cat (Rep 2 (Cls Digit)) (Cat (Lit '':'')
                            (Rep 2 (Cls Digit)))))))))))))
           (Cat (Lit '' '')
           (Cat (Plus (Cls (Except CHR '']'')))
                (Lit '']''))))"

section \<open>The timestamp: \<^verbatim>\<open>time.Parse\<close> and \<^verbatim>\<open>UnixNano\<close>\<close>

text \<open>
  \<^verbatim>\<open>time.Parse("02/Jan/2006:15:04:05", value)\<close> of the Go library, for this one layout:
  a two-digit day, \<^verbatim>\<open>/\<close>, an abbreviated month name compared without regard to case,
  \<^verbatim>\<open>/\<close>, a four-digit year, \<^verbatim>\<open>:\<close>, an hour of one or two digits, \<^verbatim>\<open>:\<close>, two-digit
  minutes, \<^verbatim>\<open>:\<close>, two-digit seconds, and nothing after them. The layout names no zone,
  so the time is read as UTC. (The library also accepts a fraction after the seconds;
  group 1 of \<open>timeRe\<close> ends with the two digits of the seconds, so \<open>processLogs\<close> never
  passes one, and the model rejects any text after the seconds. The lemmas
  \<open>timeRe_group\<close> and \<open>time_Parse_group\<close> below show that the parser reads every value it
  is given to its end.)
\<close>

definition isDigit :: "string \<Rightarrow> nat \<Rightarrow> bool" where
  "isDigit s i = (i < length s \<and> CHR ''0'' \<le> s ! i \<and> s ! i \<le> CHR ''9'')"

definition digitVal :: "char \<Rightarrow> nat" where
  "digitVal c = of_char c - of_char CHR ''0''"

definition getnum :: "string \<Rightarrow> bool \<Rightarrow> (nat \<times> string) option" where
  "getnum s fixed =
     (if \<not> isDigit s 0 then None
      else if \<not> isDigit s 1 then (if fixed then None else Some (digitVal (s ! 0), drop 1 s))
      else Some (digitVal (s ! 0) * 10 + digitVal (s ! 1), drop 2 s))"

definition skip :: "string \<Rightarrow> string \<Rightarrow> string option" where
  "skip v prefix = (if take (length prefix) v = prefix then Some (drop (length prefix) v) else None)"

text \<open>\<^verbatim>\<open>match\<close>: equality of two strings of the same length, ignoring the case of letters.\<close>

fun match :: "string \<Rightarrow> string \<Rightarrow> bool" where
  "match (c1 # s1) (c2 # s2) =
     ((c1 = c2 \<or>
       ((of_char c1 :: nat) OR 32) = ((of_char c2 :: nat) OR 32) \<and>
        of_char CHR ''a'' \<le> ((of_char c1 :: nat) OR 32) \<and> ((of_char c1 :: nat) OR 32) \<le> of_char CHR ''z'')
      \<and> match s1 s2)"
| "match _ _ = True"

definition shortMonthNames :: "string list" where
  "shortMonthNames = [''Jan'', ''Feb'', ''Mar'', ''Apr'', ''May'', ''Jun'',
                      ''Jul'', ''Aug'', ''Sep'', ''Oct'', ''Nov'', ''Dec'']"

fun lookup :: "string list \<Rightarrow> nat \<Rightarrow> string \<Rightarrow> (nat \<times> string) option" where
  "lookup [] i val = None"
| "lookup (v # tab) i val =
     (if length v \<le> length val \<and> match (take (length v) val) v
      then Some (i, drop (length v) val) else lookup tab (Suc i) val)"

definition longYear :: "string \<Rightarrow> (nat \<times> string) option" where
  "longYear v =
     (if length v < 4 \<or> \<not> (\<forall>i \<in> {0, 1, 2, 3}. isDigit v i) then None
      else Some (digitVal (v ! 0) * 1000 + digitVal (v ! 1) * 100 + digitVal (v ! 2) * 10
                 + digitVal (v ! 3), drop 4 v))"

definition isLeap :: "int \<Rightarrow> bool" where
  "isLeap year = (year mod 4 = 0 \<and> (year mod 100 \<noteq> 0 \<or> year mod 400 = 0))"

definition daysBefore :: "nat list" where
  "daysBefore = [0, 31, 59, 90, 120, 151, 181, 212, 243, 273, 304, 334, 365]"

definition daysIn :: "nat \<Rightarrow> int \<Rightarrow> nat" where
  "daysIn m year =
     (if m = 2 \<and> isLeap year then 29 else daysBefore ! m - daysBefore ! (m - 1))"

text \<open>Days from 1 January 1970 to 1 January of a year of the proleptic Gregorian calendar.\<close>

definition daysSinceEpoch :: "int \<Rightarrow> int" where
  "daysSinceEpoch year =
     365 * (year - 1970)
     + (((year - 1) div 4 - (year - 1) div 100 + (year - 1) div 400)
        - (1969 div 4 - 1969 div 100 + 1969 div 400))"

text \<open>
  \<^verbatim>\<open>time.Date(year, month, day, hour, min, sec, 0, UTC)\<close> as seconds since the Unix
  epoch, for a month in 1..12 (the only ones the parser produces).
\<close>

definition Date :: "int \<Rightarrow> nat \<Rightarrow> nat \<Rightarrow> nat \<Rightarrow> nat \<Rightarrow> nat \<Rightarrow> int" where
  "Date year month day hour minute sec =
     (daysSinceEpoch year + int (daysBefore ! (month - 1))
      + (if isLeap year \<and> 3 \<le> month then 1 else 0) + (int day - 1)) * 86400
     + int (hour * 3600 + minute * 60 + sec)"

definition time_Parse :: "string \<Rightarrow> error + int" where
  "time_Parse v0 =
     (case do {
        (day, v) \<leftarrow> getnum v0 True;
        v \<leftarrow> skip v ''/'';
        (m, v) \<leftarrow> lookup shortMonthNames 0 v;
        v \<leftarrow> skip v ''/'';
        (year, v) \<leftarrow> longYear v;
        v \<leftarrow> skip v '':'';
        (hour, v) \<leftarrow> getnum v False;
        v \<leftarrow> skip v '':'';
        (minute, v) \<leftarrow> getnum v True;
        v \<leftarrow> skip v '':'';
        (sec, v) \<leftarrow> getnum v True;
        if 24 \<le> hour \<or> 60 \<le> minute \<or> 60 \<le> sec \<or> v \<noteq> []
           \<or> day < 1 \<or> daysIn (Suc m) (int year) < day
        then None
        else Some (Date (int year) (Suc m) day hour minute sec)
      } of
        None \<Rightarrow> Inl (Err ''parsing time'')
      | Some t \<Rightarrow> Inr t)"

text \<open>
  \<^verbatim>\<open>UnixNano\<close>: the seconds times \<open>10\<^sup>9\<close> in an \<^verbatim>\<open>int64\<close>, which wraps around for
  years before 1678 and after 2262.
\<close>

definition wrap64 :: "int \<Rightarrow> int" where
  "wrap64 n = (n + 2 ^ 63) mod 2 ^ 64 - 2 ^ 63"

definition UnixNano :: "int \<Rightarrow> int" where
  "UnixNano t = wrap64 (t * 1000000000)"

section \<open>Formatting\<close>

text \<open>The verb \<^verbatim>\<open>%d\<close> of \<^verbatim>\<open>fmt\<close>: decimal digits, with a minus sign for a negative number.\<close>

fun digits :: "nat \<Rightarrow> string" where
  "digits n = (if n < 10 then [''0123456789'' ! n]
               else digits (n div 10) @ [''0123456789'' ! (n mod 10)])"

declare digits.simps [simp del]

definition fmt_d :: "int \<Rightarrow> string" where
  "fmt_d i = (if i < 0 then ''-'' @ digits (nat (- i)) else digits (nat i))"

text \<open>\<^verbatim>\<open>hex.EncodeToString\<close>: two lowercase hexadecimal digits for each byte.\<close>

definition hextable :: string where
  "hextable = ''0123456789abcdef''"

definition EncodeToString :: "byte list \<Rightarrow> string" where
  "EncodeToString src =
     concat (map (\<lambda>v. [hextable ! unat (drop_bit 4 v), hextable ! unat (v AND 0x0f)]) src)"

text \<open>
  Line 19: the delimiter, the UTF-8 text of the three code points U+1F435, U+1F648 and
  U+1F649. \<open>utf8\<close> encodes a code point of the supplementary planes in four bytes.
\<close>

definition utf8 :: "nat \<Rightarrow> string" where
  "utf8 cp = [char_of (0xF0 + cp div 262144), char_of (0x80 + cp div 4096 mod 64),
              char_of (0x80 + cp div 64 mod 64), char_of (0x80 + cp mod 64)]"

definition gorPayloadDelimiter :: string where
  "gorPayloadDelimiter = utf8 0x1F435 @ utf8 0x1F648 @ utf8 0x1F649"

section \<open>The streams and the other capabilities of \<^verbatim>\<open>processLogs\<close>\<close>

text \<open>
  The input \<^verbatim>\<open>io.Reader\<close> delivers some bytes and then either the end of the input or
  a read error.
\<close>

record reader =
  content :: string
  failure :: "error option"

text \<open>
  \<^verbatim>\<open>bufio.Scanner\<close> with its default split function \<^verbatim>\<open>ScanLines\<close> and its default
  buffer limit: a line ends at a line feed, one carriage return before the line feed is
  dropped, the text after the last line feed is a last line unless it is empty, and when
  65536 bytes are pending with no line feed among them the scanner stops with
  \<^verbatim>\<open>ErrTooLong\<close>. \<open>scan\<close> reads the input byte by byte; \<open>cur\<close> is the pending text.
  After a read error the scanner still delivers the pending text as a last line.
\<close>

definition MaxScanTokenSize :: nat where
  "MaxScanTokenSize = 65536"

definition ErrTooLong :: error where
  "ErrTooLong = Err ''bufio.Scanner: token too long''"

definition dropCR :: "string \<Rightarrow> string" where
  "dropCR data = (if data \<noteq> [] \<and> last data = CR then butlast data else data)"

fun scan :: "string \<Rightarrow> string \<Rightarrow> string list \<times> error option" where
  "scan [] cur = (if cur = [] then ([], None) else ([dropCR cur], None))"
| "scan (x # xs) cur =
     (if x = LF then (case scan xs [] of (ls, e) \<Rightarrow> (dropCR cur # ls, e))
      else if MaxScanTokenSize \<le> length (cur @ [x]) then ([], Some ErrTooLong)
      else scan xs (cur @ [x]))"

text \<open>The lines \<^verbatim>\<open>scanner.Text()\<close> returns in turn, and the final \<^verbatim>\<open>scanner.Err()\<close>.\<close>

definition Scan :: "reader \<Rightarrow> string list \<times> error option" where
  "Scan r =
     (case scan (content r) [] of
        (ls, Some e) \<Rightarrow> (ls, Some e)
      | (ls, None) \<Rightarrow> (ls, failure r))"

text \<open>
  The output \<^verbatim>\<open>io.Writer\<close>. A call of \<^verbatim>\<open>Write\<close> either takes all the bytes, or
  takes the first \<open>n\<close> of them and reports an error; what it does may depend on what it
  took before. \<^verbatim>\<open>fmt.Fprintf\<close> formats its arguments and calls \<^verbatim>\<open>Write\<close> once.
\<close>

datatype wresult = Written | ShortWrite nat error

type_synonym writer = "string list \<Rightarrow> string \<Rightarrow> wresult"

text \<open>
  The access-log parser (\<^verbatim>\<open>github.com/nekrassov01/access-log-parser\<close>) is a library
  outside the repository; of its result \<open>processLogs\<close> reads the error, the list
  \<^verbatim>\<open>Errors\<close> and the count \<^verbatim>\<open>Matched\<close>. It is a parameter of the model.
\<close>

record entry =
  Errors :: "string list"
  Matched :: int

type_synonym parser = "string \<Rightarrow> error + entry"

text \<open>
  The random source \<^verbatim>\<open>crypto/rand\<close>: its \<open>k\<close>-th call either fails or fills the
  slice it is given, byte \<open>i\<close> of the slice with the \<open>i\<close>-th byte it generates.
\<close>

type_synonym rand = "nat \<Rightarrow> error + (nat \<Rightarrow> byte)"

text \<open>
  The state of a run: the counter, the number of calls of the random source so far, and
  the bytes each call of \<^verbatim>\<open>Write\<close> has taken, in order.
\<close>

record state =
  processedCount :: nat
  randCalls :: nat
  written :: "string list"

definition Fprintf :: "writer \<Rightarrow> string \<Rightarrow> state \<Rightarrow> state \<times> error option" where
  "Fprintf w data st =
     (case w (written st) data of
        Written \<Rightarrow> (st\<lparr>written := written st @ [data]\<rparr>, None)
      | ShortWrite n e \<Rightarrow> (st\<lparr>written := written st @ [take n data]\<rparr>, Some e))"

section \<open>\<^verbatim>\<open>generateRequestID\<close> and \<^verbatim>\<open>processLogs\<close>\<close>

text \<open>Lines 134 to 140.\<close>

definition generateRequestID :: "rand \<Rightarrow> nat \<Rightarrow> error + string" where
  "generateRequestID rnd k =
     (case rnd k of
        Inl e \<Rightarrow> Inl e
      | Inr g \<Rightarrow> Inr (EncodeToString (map g [0..<12])))"

text \<open>Lines 75 and 76: the parser's verdict on a line.\<close>

definition malformed :: "parser \<Rightarrow> string \<Rightarrow> bool" where
  "malformed p line =
     (case p line of
        Inl e \<Rightarrow> True
      | Inr ent \<Rightarrow> 0 < length (Errors ent) \<or> Matched ent = 0)"

text \<open>Lines 88 to 94: the request line, or \<open>None\<close> where the source goes on to the next line.\<close>

definition extractRequestLine :: "string \<Rightarrow> string option" where
  "extractRequestLine line =
     (let matches = FindStringSubmatch re line in
      if length matches = 4
      then Some (matches ! 1 @ '' '' @ matches ! 2 @ '' '' @ matches ! 3)
      else None)"

text \<open>Lines 96 to 103: the timestamp, zero unless the pattern matches and the time parses.\<close>

definition extractTimestamp :: "string \<Rightarrow> int" where
  "extractTimestamp line =
     (let timeMatch = FindStringSubmatch timeRe line in
      if length timeMatch = 2
      then (case time_Parse (timeMatch ! 1) of Inr t \<Rightarrow> UnixNano t | Inl e \<Rightarrow> 0)
      else 0)"

text \<open>
  One iteration of the loop either goes on to the next line (\<open>Continue\<close>) or leaves
  \<open>processLogs\<close> with an error (\<open>Return\<close>).
\<close>

datatype outcome = Continue state | Return state error

text \<open>Lines 111 to 125: the three writes, then the counter.\<close>

definition header :: "string \<Rightarrow> int \<Rightarrow> string" where
  "header reqID timestamp = ''1'' @ '' '' @ reqID @ '' '' @ fmt_d timestamp @ '' '' @ fmt_d 0 @ [LF]"

definition writeRecord :: "writer \<Rightarrow> string \<Rightarrow> int \<Rightarrow> string \<Rightarrow> state \<Rightarrow> outcome" where
  "writeRecord w reqID timestamp requestLine st =
     (case Fprintf w (header reqID timestamp) st of
        (st1, Some e) \<Rightarrow> Return st1 (Wrapf ''failed to write header'' e)
      | (st1, None) \<Rightarrow>
     (case Fprintf w (requestLine @ [CR, LF, CR, LF, LF]) st1 of
        (st2, Some e) \<Rightarrow> Return st2 (Wrapf ''failed to write request line'' e)
      | (st2, None) \<Rightarrow>
     (case Fprintf w (gorPayloadDelimiter @ [LF]) st2 of
        (st3, Some e) \<Rightarrow> Return st3 (Wrapf ''failed to write delimiter'' e)
      | (st3, None) \<Rightarrow> Continue (st3\<lparr>processedCount := Suc (processedCount st3)\<rparr>))))"

text \<open>Lines 70 to 125: the body of the loop, for one line.\<close>

definition loopBody :: "parser \<Rightarrow> rand \<Rightarrow> writer \<Rightarrow> string \<Rightarrow> state \<Rightarrow> outcome" where
  "loopBody p rnd w line st =
     (if line = [] then Continue st
      else if malformed p line then Continue st
      else case extractRequestLine line of
        None \<Rightarrow> Continue st
      | Some requestLine \<Rightarrow>
          let timestamp = extractTimestamp line in
          (case generateRequestID rnd (randCalls st) of
             Inl e \<Rightarrow> Continue (st\<lparr>randCalls := Suc (randCalls st)\<rparr>)
           | Inr reqID \<Rightarrow>
               writeRecord w reqID timestamp requestLine (st\<lparr>randCalls := Suc (randCalls st)\<rparr>)))"

text \<open>Lines 69 to 126: the loop over the lines the scanner delivers.\<close>

fun loop :: "parser \<Rightarrow> rand \<Rightarrow> writer \<Rightarrow> string list \<Rightarrow> state \<Rightarrow> outcome" where
  "loop p rnd w [] st = Continue st"
| "loop p rnd w (line # ls) st =
     (case loopBody p rnd w line st of
        Return st' e \<Rightarrow> Return st' e
      | Continue st' \<Rightarrow> loop p rnd w ls st')"

text \<open>
  Lines 66 to 131. The result is the count, the error, and the final state, whose field
  \<open>written\<close> is what the writer was given.
\<close>

definition initial :: state where
  "initial = \<lparr>processedCount = 0, randCalls = 0, written = []\<rparr>"

definition processLogs :: "reader \<Rightarrow> writer \<Rightarrow> parser \<Rightarrow> rand \<Rightarrow> nat \<times> error option \<times> state" where
  "processLogs r w p rnd =
     (case Scan r of (ls, serr) \<Rightarrow>
      (case loop p rnd w ls initial of
         Return st e \<Rightarrow> (processedCount st, Some e, st)
       | Continue st \<Rightarrow>
           (case serr of
              Some e \<Rightarrow> (processedCount st, Some (Wrapf ''error reading input file'' e), st)
            | None \<Rightarrow> (processedCount st, None, st))))"

section \<open>The request line, as the specification describes it\<close>

text \<open>
  A request line has a method of the fixed set, a path that is a non-empty run of
  characters other than the space, and a protocol that is a non-empty run of characters
  other than the double quote. In a log line it stands between double quotes, its three
  parts separated by single spaces.
\<close>

definition isRequestLine :: "string \<Rightarrow> string \<Rightarrow> string \<Rightarrow> bool" where
  "isRequestLine m path proto =
     (m \<in> set methods \<and> path \<noteq> [] \<and> CHR '' '' \<notin> set path \<and> proto \<noteq> [] \<and> DQ \<notin> set proto)"

definition quoted :: "string \<Rightarrow> string \<Rightarrow> string \<Rightarrow> string" where
  "quoted m path proto = [DQ] @ m @ '' '' @ path @ '' '' @ proto @ [DQ]"

definition hasQuotedRequestLine :: "string \<Rightarrow> bool" where
  "hasQuotedRequestLine line =
     (\<exists>pre m path proto post. isRequestLine m path proto \<and> line = pre @ quoted m path proto @ post)"

text \<open>
  The segments of a sequence of complete records: for each record its header, its request
  line segment, and the delimiter line.
\<close>

definition framed :: "(string \<times> string) list \<Rightarrow> string list" where
  "framed recs = concat (map (\<lambda>(h, q). [h, q, gorPayloadDelimiter @ [LF]]) recs)"

text \<open>
  The lines of a text: each line feed ends a line, and what follows the last line feed is
  a last line unless it is empty. \<open>cur\<close> is the line being read.
\<close>

fun splitLines :: "string \<Rightarrow> string \<Rightarrow> string list" where
  "splitLines [] cur = (if cur = [] then [] else [cur])"
| "splitLines (x # xs) cur = (if x = LF then cur # splitLines xs [] else splitLines xs (cur @ [x]))"

text \<open>A request identifier: 24 lowercase hexadecimal characters.\<close>

definition isRequestID :: "string \<Rightarrow> bool" where
  "isRequestID s = (length s = 24 \<and> set s \<subseteq> set ''0123456789abcdef'')"

text \<open>
  Two records agree except for the identifier: the same request line segment, and headers
  with the same timestamp, each with a request identifier.
\<close>

definition sameButID :: "string \<times> string \<Rightarrow> string \<times> string \<Rightarrow> bool" where
  "sameButID r1 r2 =
     (snd r1 = snd r2 \<and>
      (\<exists>id1 id2 ts. isRequestID id1 \<and> isRequestID id2
         \<and> fst r1 = header id1 ts \<and> fst r2 = header id2 ts))"

text \<open>
  Two segments given to the writer agree except for the identifier: they are the same
  bytes, or they are two headers with the same timestamp, each with a request
  identifier.
\<close>

definition sameButIDSegment :: "string \<Rightarrow> string \<Rightarrow> bool" where
  "sameButIDSegment a b =
     (a = b \<or> (\<exists>id1 id2 ts. isRequestID id1 \<and> isRequestID id2
                 \<and> a = header id1 ts \<and> b = header id2 ts))"

text \<open>The three messages of lines 115, 119 and 123, in the order of the writes.\<close>

definition writeErrors :: "string list" where
  "writeErrors = [''failed to write header'', ''failed to write request line'',
                  ''failed to write delimiter'']"

section \<open>Inputs and capabilities used in the examples\<close>

text \<open>The input line of the end-to-end scenario.\<close>

definition exampleLine :: string where
 \<open>exampleLine = ''127.0.0.1 - - [01/Oct/2025:12:30:11 +0000] "GET /api/v1/users HTTP/1.1" 200 512 "-" "curl/8.0"''\<close>

text \<open>
  Instances of the capabilities: a parser that reports every line as matched, a random
  source that never fails, and a writer that takes everything.
\<close>

definition acceptAll :: parser where
  "acceptAll line = Inr \<lparr>Errors = [], Matched = 1\<rparr>"


definition failingRand :: rand where
  "failingRand k = Inl (Err ''entropy source unavailable'')"

definition countingRand :: rand where
  "countingRand k = Inr (\<lambda>i. of_nat (16 * k + i))"

definition okWriter :: writer where
  "okWriter h d = Written"

text \<open>A writer whose call number \<open>n\<close> (from 0) takes three bytes and fails.\<close>

definition failAt :: "nat \<Rightarrow> writer" where
  "failAt n h d = (if length h = n then ShortWrite 3 (Err ''no space left on device'') else Written)"

text \<open>
  A second random source that never fails, with other bytes than the first, and a writer
  that takes nothing of a header whose identifier begins with \<^verbatim>\<open>00\<close> and takes all of
  every other segment.
\<close>

definition shiftedRand :: rand where
  "shiftedRand k = Inr (\<lambda>i. of_nat (16 * Suc k + i))"

definition refuseID00 :: writer where
  "refuseID00 h d = (if take 4 d = ''1 00'' then ShortWrite 0 (Err ''identifier refused'') else Written)"

section \<open>What the request-line pattern matches\<close>

lemma ms_Plus_Cls:
  "ms (Plus (Cls k)) s c =
     map (\<lambda>n. (drop n s, c)) (rev [1..<Suc (length (takeWhile (cmatch k) s))])"
proof (induction s)
  case Nil
  show ?case by (simp add: ms.simps(5))
next
  case (Cons x xs)
  show ?case
  proof (cases "cmatch k x")
    case False
    then show ?thesis by (simp add: ms.simps(5))
  next
    case True
    let ?L = "length (takeWhile (cmatch k) xs)"
    have "[1..<Suc (Suc ?L)] = 1 # map Suc [1..<Suc ?L]"
      by (simp add: upt_conv_Cons map_Suc_upt del: upt_Suc)
    then have "map (\<lambda>n. (drop n (x # xs), c)) (rev [1..<Suc (Suc ?L)])
        = map (\<lambda>n. (drop n xs, c)) (rev [1..<Suc ?L]) @ [(xs, c)]"
      by (simp add: rev_map comp_def del: upt_Suc)
    with True Cons show ?thesis by (simp add: ms.simps(5) del: upt_Suc)
  qed
qed

lemma ms_Grp_Plus_Cls:
  "ms (Grp i (Plus (Cls k))) s c =
     map (\<lambda>n. (drop n s, (i, take n s) # c)) (rev [1..<Suc (length (takeWhile (cmatch k) s))])"
proof -
  have "length (takeWhile (cmatch k) s) \<le> length s"
    by (rule length_takeWhile_le)
  then have "\<And>n. n \<in> set [1..<Suc (length (takeWhile (cmatch k) s))] \<Longrightarrow>
      length s - length (drop n s) = n"
    by auto
  then show ?thesis
    by (simp add: ms_Plus_Cls comp_def del: upt_Suc)
qed

lemma Cat_Grp_Plus_Cls:
  "ms (Cat (Grp i (Plus (Cls k))) B) s c =
     concat (map (\<lambda>n. ms B (drop n s) ((i, take n s) # c))
       (rev [1..<Suc (length (takeWhile (cmatch k) s))]))"
  unfolding ms.simps(3) ms_Grp_Plus_Cls by (simp add: comp_def del: upt_Suc)

lemma run_then:
  assumes B: "\<And>y ys c'. cmatch k y \<Longrightarrow> ms B (y # ys) c' = []"
  shows "ms (Cat (Grp i (Plus (Cls k))) B) s c =
     (if takeWhile (cmatch k) s = [] then []
      else ms B (dropWhile (cmatch k) s) ((i, takeWhile (cmatch k) s) # c))"
proof (cases "takeWhile (cmatch k) s = []")
  case True
  then show ?thesis by (simp add: Cat_Grp_Plus_Cls del: ms.simps(1-4,6))
next
  case False
  let ?L = "length (takeWhile (cmatch k) s)"
  have L: "0 < ?L" "?L \<le> length s" using False by (auto simp: length_takeWhile_le)
  have short: "ms B (drop n s) ((i, take n s) # c) = []" if "n \<in> set (rev [1..<?L])" for n
  proof -
    from that have n: "n < ?L" by simp
    then have "s ! n \<in> set (takeWhile (cmatch k) s)"
      by (metis nth_mem takeWhile_nth)
    then have "cmatch k (s ! n)" by (rule set_takeWhileD[THEN conjunct2])
    moreover have "drop n s = s ! n # drop (Suc n) s"
      using n L by (simp add: Cons_nth_drop_Suc)
    ultimately show ?thesis using B by simp
  qed
  let ?f = "\<lambda>n. ms B (drop n s) ((i, take n s) # c)"
  have "Suc 0 \<le> ?L" using False by (simp add: Suc_le_eq)
  then have r: "rev [1..<Suc ?L] = ?L # rev [1..<?L]" by simp
  have nil: "concat (map ?f (rev [1..<?L])) = []"
    using short by (simp del: set_rev)
  have "ms (Cat (Grp i (Plus (Cls k))) B) s c = concat (map ?f (rev [1..<Suc ?L]))"
    by (rule Cat_Grp_Plus_Cls)
  also have "\<dots> = concat (map ?f (?L # rev [1..<?L]))"
    by (simp only: r)
  also have "\<dots> = ?f ?L"
    by (simp only: list.map concat.simps nil append_Nil2)
  finally show ?thesis
    using False by (simp add: takeWhile_eq_take[symmetric] dropWhile_eq_drop[symmetric])
qed

lemma run_then_char:
  assumes B: "\<And>ys c'. ms B ys c' = (if ys \<noteq> [] \<and> hd ys = d then F (tl ys) c' else [])"
  shows "ms (Cat (Grp i (Plus (Cls (Except d)))) B) s c =
     (if takeWhile (\<lambda>x. x \<noteq> d) s = [] \<or> dropWhile (\<lambda>x. x \<noteq> d) s = [] then []
      else F (tl (dropWhile (\<lambda>x. x \<noteq> d) s)) ((i, takeWhile (\<lambda>x. x \<noteq> d) s) # c))"
proof -
  let ?p = "takeWhile (\<lambda>x. x \<noteq> d) s" and ?u = "dropWhile (\<lambda>x. x \<noteq> d) s"
  have eq: "cmatch (Except d) = (\<lambda>x. x \<noteq> d)" by (rule ext) simp
  have "\<And>y ys c'. cmatch (Except d) y \<Longrightarrow> ms B (y # ys) c' = []"
    by (subst B) simp
  then have step: "ms (Cat (Grp i (Plus (Cls (Except d)))) B) s c =
      (if ?p = [] then [] else ms B ?u ((i, ?p) # c))"
    by (subst run_then) (simp_all only: eq)
  show ?thesis
  proof (cases ?u)
    case Nil
    then show ?thesis unfolding step by (subst B) simp
  next
    case (Cons y ys)
    then have "y = d" using hd_dropWhile[of "\<lambda>x. x \<noteq> d" s] by simp
    with Cons show ?thesis unfolding step by (subst B) simp
  qed
qed

lemma Lit1: "ms (Lit [d]) ys c = (if ys \<noteq> [] \<and> hd ys = d then [(tl ys, c)] else [])"
  by (cases ys) (auto simp: drop_Suc)

lemma Cat_Lit1: "ms (Cat (Lit [d]) B) ys c = (if ys \<noteq> [] \<and> hd ys = d then ms B (tl ys) c else [])"
  by (cases ys) (auto simp: drop_Suc)

lemma proto_then_quote:
  "ms (Cat (Grp 3 (Plus (Cls (Except DQ)))) (Lit [DQ])) s c =
     (if takeWhile (\<lambda>x. x \<noteq> DQ) s = [] \<or> dropWhile (\<lambda>x. x \<noteq> DQ) s = [] then []
      else [(tl (dropWhile (\<lambda>x. x \<noteq> DQ) s), (3, takeWhile (\<lambda>x. x \<noteq> DQ) s) # c)])"
  by (rule run_then_char) (rule Lit1)

lemma path_then_proto:
  "ms (Cat (Grp 2 (Plus (Cls (Except CHR '' ''))))
        (Cat (Lit '' '') (Cat (Grp 3 (Plus (Cls (Except DQ)))) (Lit [DQ])))) s c =
     (if takeWhile (\<lambda>x. x \<noteq> CHR '' '') s = [] \<or> dropWhile (\<lambda>x. x \<noteq> CHR '' '') s = [] then []
      else ms (Cat (Grp 3 (Plus (Cls (Except DQ)))) (Lit [DQ]))
             (tl (dropWhile (\<lambda>x. x \<noteq> CHR '' '') s)) ((2, takeWhile (\<lambda>x. x \<noteq> CHR '' '') s) # c))"
  by (rule run_then_char) (rule Cat_Lit1)

lemma run_split:
  assumes "takeWhile (\<lambda>x. x \<noteq> d) s \<noteq> []" and "dropWhile (\<lambda>x. x \<noteq> d) s \<noteq> []"
  shows "s = takeWhile (\<lambda>x. x \<noteq> d) s @ d # tl (dropWhile (\<lambda>x. x \<noteq> d) s)"
    and "d \<notin> set (takeWhile (\<lambda>x. x \<noteq> d) s)"
proof -
  have "hd (dropWhile (\<lambda>x. x \<noteq> d) s) = d"
    using hd_dropWhile[OF assms(2)] by simp
  then have "dropWhile (\<lambda>x. x \<noteq> d) s = d # tl (dropWhile (\<lambda>x. x \<noteq> d) s)"
    using assms(2) by (metis list.collapse)
  then show "s = takeWhile (\<lambda>x. x \<noteq> d) s @ d # tl (dropWhile (\<lambda>x. x \<noteq> d) s)"
    by (metis takeWhile_dropWhile_id)
  show "d \<notin> set (takeWhile (\<lambda>x. x \<noteq> d) s)"
    using set_takeWhileD by fastforce
qed

lemma run_of:
  assumes "d \<notin> set p"
  shows "takeWhile (\<lambda>x. x \<noteq> d) (p @ d # r) = p" and "dropWhile (\<lambda>x. x \<noteq> d) (p @ d # r) = d # r"
  using assms by (induction p) auto

lemma tail_sound:
  assumes "(rest, c') \<in> set (ms (Cat (Lit '' '') (Cat (Grp 2 (Plus (Cls (Except CHR '' ''))))
        (Cat (Lit '' '') (Cat (Grp 3 (Plus (Cls (Except DQ)))) (Lit [DQ]))))) u c)"
  shows "\<exists>path proto. path \<noteq> [] \<and> CHR '' '' \<notin> set path \<and> proto \<noteq> [] \<and> DQ \<notin> set proto
      \<and> u = '' '' @ path @ '' '' @ proto @ [DQ] @ rest \<and> c' = (3, proto) # (2, path) # c"
proof -
  let ?sp = "\<lambda>x. x \<noteq> CHR '' ''" and ?dq = "\<lambda>x. x \<noteq> DQ"
  from assms have u: "u \<noteq> []" "hd u = CHR '' ''"
    and p: "takeWhile ?sp (tl u) \<noteq> []" "dropWhile ?sp (tl u) \<noteq> []"
    and q: "takeWhile ?dq (tl (dropWhile ?sp (tl u))) \<noteq> []" "dropWhile ?dq (tl (dropWhile ?sp (tl u))) \<noteq> []"
    and r: "rest = tl (dropWhile ?dq (tl (dropWhile ?sp (tl u))))"
           "c' = (3, takeWhile ?dq (tl (dropWhile ?sp (tl u)))) # (2, takeWhile ?sp (tl u)) # c"
    unfolding Cat_Lit1 path_then_proto proto_then_quote
    by (auto split: if_splits)
  let ?path = "takeWhile ?sp (tl u)" and ?proto = "takeWhile ?dq (tl (dropWhile ?sp (tl u)))"
  have "u = CHR '' '' # tl u" using u by (metis list.collapse)
  also have "tl u = ?path @ CHR '' '' # tl (dropWhile ?sp (tl u))"
    using run_split(1)[OF p] .
  also have "tl (dropWhile ?sp (tl u)) = ?proto @ DQ # rest"
    unfolding r using run_split(1)[OF q] .
  finally have "u = '' '' @ ?path @ '' '' @ ?proto @ [DQ] @ rest" by simp
  moreover have "CHR '' '' \<notin> set ?path" using run_split(2)[OF p] .
  moreover have "DQ \<notin> set ?proto" using run_split(2)[OF q] .
  ultimately show ?thesis using p q r by blast
qed

lemma tail_complete:
  assumes "path \<noteq> []" "CHR '' '' \<notin> set path" "proto \<noteq> []" "DQ \<notin> set proto"
  shows "ms (Cat (Lit '' '') (Cat (Grp 2 (Plus (Cls (Except CHR '' ''))))
        (Cat (Lit '' '') (Cat (Grp 3 (Plus (Cls (Except DQ)))) (Lit [DQ])))))
      ('' '' @ path @ '' '' @ proto @ [DQ] @ post) c = [(post, (3, proto) # (2, path) # c)]"
  unfolding Cat_Lit1 path_then_proto proto_then_quote
  using assms by (simp add: run_of)

lemma Grp_Lit:
  "ms (Grp i (Lit l)) t c = (if take (length l) t = l then [(drop (length l) t, (i, l) # c)] else [])"
proof (cases "take (length l) t = l")
  case True
  then have "length l \<le> length t"
    by (metis length_take min.cobounded1 min.commute)
  with True show ?thesis by simp
next
  case False
  then show ?thesis by simp
qed

lemma Grp_Alt: "ms (Grp i (Alt a b)) t c = ms (Grp i a) t c @ ms (Grp i b) t c"
  by simp

lemma methods_alt:
  "ms (Grp 1 (Alt (Lit ''GET'') (Alt (Lit ''POST'') (Alt (Lit ''PUT'') (Alt (Lit ''DELETE'')
              (Alt (Lit ''HEAD'') (Alt (Lit ''OPTIONS'') (Lit ''PATCH'')))))))) t c =
   map (\<lambda>m. (drop (length m) t, (1, m) # c)) (filter (\<lambda>m. take (length m) t = m) methods)"
  unfolding Grp_Alt Grp_Lit methods_def by simp

lemma re_at:
  "ms re s c =
     (if s \<noteq> [] \<and> hd s = DQ
      then concat (map (\<lambda>m. ms (Cat (Lit '' '') (Cat (Grp 2 (Plus (Cls (Except CHR '' ''))))
               (Cat (Lit '' '') (Cat (Grp 3 (Plus (Cls (Except DQ)))) (Lit [DQ])))))
             (drop (length m) (tl s)) ((1, m) # c))
           (filter (\<lambda>m. take (length m) (tl s) = m) methods))
      else [])"
  unfolding re_def Cat_Lit1 ms.simps(3)[of "Grp 1 _"] methods_alt
  by (simp add: comp_def del: ms.simps(1-4,6) One_nat_def)

lemma re_sound:
  assumes "(rest, c) \<in> set (ms re s [])"
  shows "\<exists>m path proto. isRequestLine m path proto \<and> s = quoted m path proto @ rest
      \<and> c = [(3, proto), (2, path), (1, m)]"
proof -
  from assms obtain m where s: "s \<noteq> []" "hd s = DQ" and m: "m \<in> set methods" "take (length m) (tl s) = m"
    and t: "(rest, c) \<in> set (ms (Cat (Lit '' '') (Cat (Grp 2 (Plus (Cls (Except CHR '' ''))))
               (Cat (Lit '' '') (Cat (Grp 3 (Plus (Cls (Except DQ)))) (Lit [DQ])))))
             (drop (length m) (tl s)) [(1, m)])"
    unfolding re_at by (auto split: if_splits simp del: ms.simps(1-4,6))
  from tail_sound[OF t] obtain path proto where pp: "path \<noteq> []" "CHR '' '' \<notin> set path"
      "proto \<noteq> []" "DQ \<notin> set proto"
      "drop (length m) (tl s) = '' '' @ path @ '' '' @ proto @ [DQ] @ rest"
      "c = [(3, proto), (2, path), (1, m)]"
    by blast
  have "s = DQ # tl s" using s by (metis list.collapse)
  also have "tl s = m @ drop (length m) (tl s)"
    using m(2) by (metis append_take_drop_id)
  finally have "s = quoted m path proto @ rest"
    unfolding pp(5) quoted_def by simp
  with m pp show ?thesis unfolding isRequestLine_def by blast
qed

lemma re_complete:
  assumes "isRequestLine m path proto"
  shows "(post, [(3, proto), (2, path), (1, m)]) \<in> set (ms re (quoted m path proto @ post) [])"
proof -
  from assms have m: "m \<in> set methods" and pp: "path \<noteq> []" "CHR '' '' \<notin> set path"
      "proto \<noteq> []" "DQ \<notin> set proto"
    unfolding isRequestLine_def by auto
  have tl: "tl (quoted m path proto @ post) = m @ '' '' @ path @ '' '' @ proto @ [DQ] @ post"
    by (simp add: quoted_def)
  have "(post, [(3, proto), (2, path), (1, m)]) \<in> set (ms (Cat (Lit '' '') (Cat (Grp 2 (Plus (Cls (Except CHR '' ''))))
               (Cat (Lit '' '') (Cat (Grp 3 (Plus (Cls (Except DQ)))) (Lit [DQ])))))
             (drop (length m) (tl (quoted m path proto @ post))) [(1, m)])"
    unfolding tl using tail_complete[OF pp] by (simp del: ms.simps(1-4,6))
  moreover have "take (length m) (tl (quoted m path proto @ post)) = m"
    unfolding tl by simp
  moreover have "quoted m path proto @ post \<noteq> []" "hd (quoted m path proto @ post) = DQ"
    by (simp_all add: quoted_def)
  ultimately show ?thesis
    unfolding re_at using m by (auto simp del: ms.simps(1-4,6))
qed

lemma search_None: "search r s = None \<longleftrightarrow> (\<forall>i \<le> length s. ms r (drop i s) [] = [])"
proof (induction s)
  case Nil
  show ?case by (simp split: list.splits)
next
  case (Cons x xs)
  show ?case
  proof (cases "ms r (x # xs) []")
    case Nil
    have "(\<forall>i \<le> length (x # xs). ms r (drop i (x # xs)) [] = []) \<longleftrightarrow>
        (\<forall>i \<le> length xs. ms r (drop i xs) [] = [])"
    proof
      assume a: "\<forall>i \<le> length (x # xs). ms r (drop i (x # xs)) [] = []"
      show "\<forall>i \<le> length xs. ms r (drop i xs) [] = []"
      proof (intro allI impI)
        fix i assume "i \<le> length xs"
        then show "ms r (drop i xs) [] = []" using a[rule_format, of "Suc i"] by simp
      qed
    next
      assume a: "\<forall>i \<le> length xs. ms r (drop i xs) [] = []"
      show "\<forall>i \<le> length (x # xs). ms r (drop i (x # xs)) [] = []"
      proof (intro allI impI)
        fix i assume i: "i \<le> length (x # xs)"
        show "ms r (drop i (x # xs)) [] = []"
        proof (cases i)
          case 0
          then show ?thesis using Nil by simp
        next
          case (Suc j)
          then show ?thesis using a i by simp
        qed
      qed
    qed
    with Nil Cons show ?thesis by simp
  next
    case (Cons a list)
    then have "search r (x # xs) \<noteq> None" by (simp split: prod.splits)
    moreover have "\<not> (\<forall>i \<le> length (x # xs). ms r (drop i (x # xs)) [] = [])"
    proof
      assume "\<forall>i \<le> length (x # xs). ms r (drop i (x # xs)) [] = []"
      then have "ms r (drop 0 (x # xs)) [] = []" by blast
      with Cons show False by simp
    qed
    ultimately show ?thesis by blast
  qed
qed

lemma search_Some:
  assumes "search r s = Some (whole, c)"
  shows "\<exists>i rest others. i \<le> length s \<and> ms r (drop i s) [] = (rest, c) # others
      \<and> whole = take (length (drop i s) - length rest) (drop i s)
      \<and> (\<forall>j < i. ms r (drop j s) [] = [])"
  using assms
proof (induction s)
  case Nil
  then show ?case by (auto split: list.splits)
next
  case (Cons x xs)
  show ?case
  proof (cases "ms r (x # xs) []")
    case Nil
    with Cons.prems have "search r xs = Some (whole, c)" by simp
    from Cons.IH[OF this] obtain i rest others where i: "i \<le> length xs"
        "ms r (drop i xs) [] = (rest, c) # others"
        "whole = take (length (drop i xs) - length rest) (drop i xs)"
        "\<forall>j < i. ms r (drop j xs) [] = []"
      by blast
    have "\<forall>j < Suc i. ms r (drop j (x # xs)) [] = []"
    proof (intro allI impI)
      fix j assume "j < Suc i"
      then show "ms r (drop j (x # xs)) [] = []"
        using Nil i(4) by (cases j) auto
    qed
    with i(1-3) show ?thesis
      by (intro exI[of _ "Suc i"] exI[of _ rest] exI[of _ others]) simp
  next
    case (Cons a list)
    obtain rest c' where a: "a = (rest, c')" by (cases a)
    with Cons Cons.prems have "c' = c" "whole = take (length (x # xs) - length rest) (x # xs)"
      by simp_all
    with Cons a show ?thesis
      by (intro exI[of _ 0] exI[of _ rest] exI[of _ list]) simp
  qed
qed

lemma NumSubexp_re: "NumSubexp re = 3"
  by (simp add: re_def)

lemma find_re_length:
  "length (FindStringSubmatch re line) = 4 \<longleftrightarrow> search re line \<noteq> None"
  by (auto simp: FindStringSubmatch_def NumSubexp_re split: option.splits)

lemma find_re_first:
  assumes "length (FindStringSubmatch re line) = 4"
  shows "\<exists>pre m path proto post.
      isRequestLine m path proto \<and> line = pre @ quoted m path proto @ post
      \<and> FindStringSubmatch re line = [quoted m path proto, m, path, proto]
      \<and> (\<forall>j < length pre. ms re (drop j line) [] = [])"
proof -
  from assms obtain whole c where sr: "search re line = Some (whole, c)"
    unfolding find_re_length by auto
  from search_Some[OF sr] obtain i rest others where i: "i \<le> length line"
      "ms re (drop i line) [] = (rest, c) # others"
      "whole = take (length (drop i line) - length rest) (drop i line)"
      "\<forall>j < i. ms re (drop j line) [] = []"
    by blast
  from i(2) have "(rest, c) \<in> set (ms re (drop i line) [])" by simp
  from re_sound[OF this] obtain m path proto where r: "isRequestLine m path proto"
      "drop i line = quoted m path proto @ rest" "c = [(3, proto), (2, path), (1, m)]"
    by blast
  have whole: "whole = quoted m path proto"
    unfolding i(3) r(2) by simp
  have line: "line = take i line @ quoted m path proto @ rest"
    using r(2) by (metis append_take_drop_id)
  have len: "length (take i line) = i" using i(1) by simp
  have "FindStringSubmatch re line = [quoted m path proto, m, path, proto]"
    by (simp add: FindStringSubmatch_def sr whole r(3) NumSubexp_re upt_conv_Cons)
  with r(1) line i(4) len show ?thesis by metis
qed

lemma find_re_complete:
  assumes "isRequestLine m path proto" and "line = pre @ quoted m path proto @ post"
  shows "ms re (drop (length pre) line) [] \<noteq> []"
  using re_complete[OF assms(1), of post] unfolding assms(2) by auto

lemma run_unique:
  assumes "d \<notin> set p" "d \<notin> set p'" "p @ d # r = p' @ d # r'"
  shows "p = p' \<and> r = r'"
proof -
  have "takeWhile (\<lambda>x. x \<noteq> d) (p @ d # r) = p" "takeWhile (\<lambda>x. x \<noteq> d) (p' @ d # r') = p'"
    using assms(1,2) by (simp_all add: run_of)
  with assms(3) have "p = p'" by simp
  with assms(3) show ?thesis by simp
qed

lemma quoted_unique:
  assumes "isRequestLine m path proto" and "isRequestLine m' path' proto'"
    and "quoted m path proto @ post = quoted m' path' proto' @ post'"
  shows "m = m' \<and> path = path' \<and> proto = proto' \<and> post = post'"
proof -
  have sp: "CHR '' '' \<notin> set x" if "x \<in> set methods" for x
    using that by (auto simp: methods_def)
  from assms(1,2) have m: "CHR '' '' \<notin> set m" "CHR '' '' \<notin> set m'"
    and p: "CHR '' '' \<notin> set path" "CHR '' '' \<notin> set path'"
    and q: "DQ \<notin> set proto" "DQ \<notin> set proto'"
    using sp by (auto simp: isRequestLine_def)
  from assms(3) have "m @ CHR '' '' # (path @ CHR '' '' # (proto @ DQ # post))
      = m' @ CHR '' '' # (path' @ CHR '' '' # (proto' @ DQ # post'))"
    by (simp add: quoted_def)
  from run_unique[OF m this] have 1: "m = m'"
    "path @ CHR '' '' # (proto @ DQ # post) = path' @ CHR '' '' # (proto' @ DQ # post')"
    by simp_all
  from run_unique[OF p 1(2)] have 2: "path = path'" "proto @ DQ # post = proto' @ DQ # post'"
    by simp_all
  from run_unique[OF q 2(2)] 1(1) 2(1) show ?thesis by simp
qed

lemma hasQuotedRequestLine_iff:
  "hasQuotedRequestLine line \<longleftrightarrow> length (FindStringSubmatch re line) = 4"
proof
  assume "hasQuotedRequestLine line"
  then obtain pre m path proto post where d: "isRequestLine m path proto"
      "line = pre @ quoted m path proto @ post"
    unfolding hasQuotedRequestLine_def by blast
  have "ms re (drop (length pre) line) [] \<noteq> []"
    using find_re_complete[OF d] .
  moreover have "length pre \<le> length line" using d(2) by simp
  ultimately have "search re line \<noteq> None"
    unfolding search_None by blast
  then show "length (FindStringSubmatch re line) = 4"
    unfolding find_re_length .
next
  assume "length (FindStringSubmatch re line) = 4"
  from find_re_first[OF this] show "hasQuotedRequestLine line"
    unfolding hasQuotedRequestLine_def by blast
qed

lemma extractRequestLine_None:
  "extractRequestLine line = None \<longleftrightarrow> \<not> hasQuotedRequestLine line"
  by (simp add: extractRequestLine_def hasQuotedRequestLine_iff Let_def)

text \<open>
  Claim C10. When the request line is extracted, the line is some text, then a double
  quote, a method of the fixed set, a space, a path, a space, a protocol and a double
  quote, then the rest. The path is not empty and has no space (it is the whole run of
  characters between the two spaces), the protocol is not empty and has no double quote
  (it is everything up to the next double quote, spaces included). No quoted request
  line starts further to the left in the line, and the one that starts at this place is
  the only one that starts there. The groups of the match are the method, the path and
  the protocol, and the request line emitted is the text between the two quotes.
\<close>

theorem request_line_is_first_match:
  assumes "extractRequestLine line = Some requestLine"
  shows "\<exists>pre m path proto post.
      line = pre @ [DQ] @ m @ '' '' @ path @ '' '' @ proto @ [DQ] @ post
      \<and> m \<in> set methods
      \<and> path \<noteq> [] \<and> CHR '' '' \<notin> set path
      \<and> proto \<noteq> [] \<and> DQ \<notin> set proto
      \<and> FindStringSubmatch re line = [[DQ] @ requestLine @ [DQ], m, path, proto]
      \<and> requestLine = m @ '' '' @ path @ '' '' @ proto
      \<and> (\<forall>pre' m' path' proto' post'.
            isRequestLine m' path' proto' \<and> line = pre' @ quoted m' path' proto' @ post'
            \<longrightarrow> length pre \<le> length pre'
               \<and> (length pre' = length pre \<longrightarrow> m' = m \<and> path' = path \<and> proto' = proto))"
proof -
  from assms have len: "length (FindStringSubmatch re line) = 4"
    by (simp add: extractRequestLine_def Let_def split: if_splits)
  from find_re_first[OF len] obtain pre m path proto post where f:
      "isRequestLine m path proto" "line = pre @ quoted m path proto @ post"
      "FindStringSubmatch re line = [quoted m path proto, m, path, proto]"
      "\<forall>j < length pre. ms re (drop j line) [] = []"
    by blast
  have rl: "requestLine = m @ '' '' @ path @ '' '' @ proto"
    using assms by (simp add: extractRequestLine_def f(3))
  have first: "length pre \<le> length pre'
      \<and> (length pre' = length pre \<longrightarrow> m' = m \<and> path' = path \<and> proto' = proto)"
    if "isRequestLine m' path' proto'" "line = pre' @ quoted m' path' proto' @ post'"
    for pre' m' path' proto' post'
  proof
    show "length pre \<le> length pre'"
    proof (rule ccontr)
      assume "\<not> length pre \<le> length pre'"
      then have "ms re (drop (length pre') line) [] = []" using f(4) by simp
      with find_re_complete[OF that] show False by simp
    qed
    show "length pre' = length pre \<longrightarrow> m' = m \<and> path' = path \<and> proto' = proto"
    proof
      assume "length pre' = length pre"
      with f(2) that(2) have "quoted m path proto @ post = quoted m' path' proto' @ post'"
        by (metis append_eq_append_conv)
      from quoted_unique[OF f(1) that(1) this] show "m' = m \<and> path' = path \<and> proto' = proto"
        by simp
    qed
  qed
  have "line = pre @ [DQ] @ m @ '' '' @ path @ '' '' @ proto @ [DQ] @ post"
    using f(2) by (simp add: quoted_def)
  moreover have "FindStringSubmatch re line = [[DQ] @ requestLine @ [DQ], m, path, proto]"
    using f(3) by (simp add: quoted_def rl)
  ultimately show ?thesis
    using f(1) rl first unfolding isRequestLine_def by blast
qed

theorem request_line_is_first_match_witness:
  \<open>extractRequestLine ''x "GET /a b c HTTP/1.1" "PUT /d e"'' = Some ''GET /a b c HTTP/1.1''
   \<and> FindStringSubmatch re ''x "GET /a b c HTTP/1.1" "PUT /d e"''
       = [[DQ] @ ''GET /a b c HTTP/1.1'' @ [DQ], ''GET'', ''/a'', ''b c HTTP/1.1'']
   \<and> (\<exists>pre m path proto post.
      ''x "GET /a b c HTTP/1.1" "PUT /d e"'' = pre @ [DQ] @ m @ '' '' @ path @ '' '' @ proto @ [DQ] @ post
      \<and> m \<in> set methods
      \<and> path \<noteq> [] \<and> CHR '' '' \<notin> set path
      \<and> proto \<noteq> [] \<and> DQ \<notin> set proto
      \<and> FindStringSubmatch re ''x "GET /a b c HTTP/1.1" "PUT /d e"''
           = [[DQ] @ ''GET /a b c HTTP/1.1'' @ [DQ], m, path, proto]
      \<and> ''GET /a b c HTTP/1.1'' = m @ '' '' @ path @ '' '' @ proto)\<close>
proof -
  have f: \<open>FindStringSubmatch re ''x "GET /a b c HTTP/1.1" "PUT /d e"''
       = [[DQ] @ ''GET /a b c HTTP/1.1'' @ [DQ], ''GET'', ''/a'', ''b c HTTP/1.1'']\<close>
    by (simp add: FindStringSubmatch_def re_def DQ_def ms.simps(5))
  have e: \<open>extractRequestLine ''x "GET /a b c HTTP/1.1" "PUT /d e"'' = Some ''GET /a b c HTTP/1.1''\<close>
    by (simp add: extractRequestLine_def f)
  from request_line_is_first_match[OF e] e f show ?thesis by blast
qed

section \<open>What the timestamp pattern matches\<close>

lemma ms_Cls_elem:
  "(rest, c) \<in> set (ms (Cls k) s c0) \<longleftrightarrow> (\<exists>x. s = x # rest \<and> cmatch k x \<and> c = c0)"
  by (cases s) auto

lemma ms_Lit_elem:
  "(rest, c) \<in> set (ms (Lit l) s c0) \<longleftrightarrow> (s = l @ rest \<and> c = c0)"
proof
  assume "(rest, c) \<in> set (ms (Lit l) s c0)"
  then have a: "take (length l) s = l" "rest = drop (length l) s" "c = c0"
    by (auto split: if_splits)
  have "s = take (length l) s @ drop (length l) s" by simp
  with a show "s = l @ rest \<and> c = c0" by simp
next
  assume "s = l @ rest \<and> c = c0"
  then show "(rest, c) \<in> set (ms (Lit l) s c0)" by simp
qed

lemma ms_Cat_elem:
  "(rest, c) \<in> set (ms (Cat a b) s c0) \<longleftrightarrow>
     (\<exists>mid c1. (mid, c1) \<in> set (ms a s c0) \<and> (rest, c) \<in> set (ms b mid c1))"
  by auto

lemma ms_Grp_elem:
  "(rest, c) \<in> set (ms (Grp i a) s c0) \<longleftrightarrow>
     (\<exists>c1. (rest, c1) \<in> set (ms a s c0) \<and> c = (i, take (length s - length rest) s) # c1)"
  by auto

lemma ms_Plus_Cls_caps: "(rest, c) \<in> set (ms (Plus (Cls k)) s c0) \<Longrightarrow> c = c0"
  by (auto simp: ms_Plus_Cls)

text \<open>
  Group 1 of the timestamp pattern is always twenty characters: two digits, a slash,
  three word characters, a slash, four digits, and three times a colon and two digits.
\<close>

lemma timeRe_at:
  assumes "(rest, c) \<in> set (ms timeRe s [])"
  shows "\<exists>d1 d2 w1 w2 w3 y1 y2 y3 y4 h1 h2 m1 m2 s1 s2.
      c = [(1, [d1, d2, CHR ''/'', w1, w2, w3, CHR ''/'', y1, y2, y3, y4, CHR '':'', h1, h2,
                CHR '':'', m1, m2, CHR '':'', s1, s2])]
      \<and> (\<forall>x \<in> set [d1, d2, y1, y2, y3, y4, h1, h2, m1, m2, s1, s2]. cmatch Digit x)"
  using assms unfolding timeRe_def
  by (auto simp del: ms.simps(1-4,6) cmatch.simps
      simp add: ms_Cat_elem ms_Lit_elem ms_Cls_elem ms_Grp_elem eval_nat_numeral
      dest!: ms_Plus_Cls_caps)

lemma NumSubexp_timeRe: "NumSubexp timeRe = 1"
  by (simp add: timeRe_def eval_nat_numeral)

lemma timeRe_group:
  assumes "length (FindStringSubmatch timeRe line) = 2"
  shows "\<exists>d1 d2 w1 w2 w3 y1 y2 y3 y4 h1 h2 m1 m2 s1 s2.
      FindStringSubmatch timeRe line ! 1 =
        [d1, d2, CHR ''/'', w1, w2, w3, CHR ''/'', y1, y2, y3, y4, CHR '':'', h1, h2,
         CHR '':'', m1, m2, CHR '':'', s1, s2]
      \<and> (\<forall>x \<in> set [d1, d2, y1, y2, y3, y4, h1, h2, m1, m2, s1, s2]. cmatch Digit x)"
proof -
  from assms obtain whole c where sr: "search timeRe line = Some (whole, c)"
    by (auto simp: FindStringSubmatch_def split: option.splits)
  from search_Some[OF sr] obtain i rest others where
      "ms timeRe (drop i line) [] = (rest, c) # others"
    by blast
  then have "(rest, c) \<in> set (ms timeRe (drop i line) [])" by simp
  from timeRe_at[OF this] obtain d1 d2 w1 w2 w3 y1 y2 y3 y4 h1 h2 m1 m2 s1 s2 where
      c: "c = [(1, [d1, d2, CHR ''/'', w1, w2, w3, CHR ''/'', y1, y2, y3, y4, CHR '':'', h1, h2,
                   CHR '':'', m1, m2, CHR '':'', s1, s2])]"
      and dg: "\<forall>x \<in> set [d1, d2, y1, y2, y3, y4, h1, h2, m1, m2, s1, s2]. cmatch Digit x"
    by (elim exE conjE)
  have "FindStringSubmatch timeRe line ! 1 =
      [d1, d2, CHR ''/'', w1, w2, w3, CHR ''/'', y1, y2, y3, y4, CHR '':'', h1, h2,
       CHR '':'', m1, m2, CHR '':'', s1, s2]"
    by (simp add: FindStringSubmatch_def sr c NumSubexp_timeRe)
  with dg show ?thesis by (intro exI conjI)
qed

lemma lookup_three:
  "\<forall>t \<in> set tab. length t = 3 \<Longrightarrow>
     lookup tab i (w1 # w2 # w3 # v) = map_option (\<lambda>(m, r). (m, v)) (lookup tab i [w1, w2, w3])"
  by (induction tab arbitrary: i) (simp_all add: eval_nat_numeral)

lemma lookup_month:
  "lookup shortMonthNames 0 (w1 # w2 # w3 # x # v) =
     map_option (\<lambda>(m, r). (m, x # v)) (lookup shortMonthNames 0 [w1, w2, w3])"
  by (rule lookup_three) (simp add: shortMonthNames_def)

lemma getnum_two:
  "cmatch Digit a \<Longrightarrow> cmatch Digit b \<Longrightarrow>
     getnum (a # b # v) fixed = Some (digitVal a * 10 + digitVal b, v)"
  by (simp add: getnum_def isDigit_def)

lemma longYear_four:
  "cmatch Digit a \<Longrightarrow> cmatch Digit b \<Longrightarrow> cmatch Digit c \<Longrightarrow> cmatch Digit d \<Longrightarrow>
     longYear (a # b # c # d # v) =
       Some (digitVal a * 1000 + digitVal b * 100 + digitVal c * 10 + digitVal d, v)"
  by (simp add: longYear_def isDigit_def)

lemma skip_one: "skip (c # v) [c] = Some v"
  by (simp add: skip_def)

text \<open>
  So the time parser reads a value of this shape to its end: after the seconds nothing is
  left, and the result depends on the month name and the ranges only.
\<close>

lemma time_Parse_group:
  assumes "\<forall>x \<in> set [d1, d2, y1, y2, y3, y4, h1, h2, m1, m2, s1, s2]. cmatch Digit x"
  shows "time_Parse [d1, d2, CHR ''/'', w1, w2, w3, CHR ''/'', y1, y2, y3, y4, CHR '':'', h1, h2,
                     CHR '':'', m1, m2, CHR '':'', s1, s2] =
     (case lookup shortMonthNames 0 [w1, w2, w3] of
        None \<Rightarrow> Inl (Err ''parsing time'')
      | Some (m, r) \<Rightarrow>
          if 24 \<le> digitVal h1 * 10 + digitVal h2 \<or> 60 \<le> digitVal m1 * 10 + digitVal m2
             \<or> 60 \<le> digitVal s1 * 10 + digitVal s2 \<or> digitVal d1 * 10 + digitVal d2 < 1
             \<or> daysIn (Suc m) (int (digitVal y1 * 1000 + digitVal y2 * 100 + digitVal y3 * 10 + digitVal y4))
                 < digitVal d1 * 10 + digitVal d2
          then Inl (Err ''parsing time'')
          else Inr (Date (int (digitVal y1 * 1000 + digitVal y2 * 100 + digitVal y3 * 10 + digitVal y4))
                      (Suc m) (digitVal d1 * 10 + digitVal d2) (digitVal h1 * 10 + digitVal h2)
                      (digitVal m1 * 10 + digitVal m2) (digitVal s1 * 10 + digitVal s2)))"
proof -
  from assms have d: "cmatch Digit d1" "cmatch Digit d2" "cmatch Digit y1" "cmatch Digit y2"
    "cmatch Digit y3" "cmatch Digit y4" "cmatch Digit h1" "cmatch Digit h2" "cmatch Digit m1"
    "cmatch Digit m2" "cmatch Digit s1" "cmatch Digit s2"
    by simp_all
  show ?thesis
  proof (cases "lookup shortMonthNames 0 [w1, w2, w3]")
    case None
    then show ?thesis
      unfolding time_Parse_def
      by (simp only: getnum_two[OF d(1,2)] skip_one lookup_month
          Option.bind.bind_lunit Option.bind.bind_lzero prod.case option.map option.case)
  next
    case (Some a)
    obtain m r where a: "a = (m, r)" by (cases a)
    show ?thesis
      unfolding time_Parse_def Some a
      by (simp only: getnum_two[OF d(1,2)] getnum_two[OF d(7,8)] getnum_two[OF d(9,10)]
          getnum_two[OF d(11,12)] longYear_four[OF d(3,4,5,6)] skip_one lookup_month Some a
          Option.bind.bind_lunit prod.case option.map
          if_distrib[of "\<lambda>x. case_option _ _ x"] option.case simp_thms)
  qed
qed

section \<open>The end-to-end scenario\<close>

lemma scan_example:
  "t \<in> {[], [LF], [CR, LF]} \<Longrightarrow> scan (exampleLine @ t) [] = ([exampleLine], None)"
  by (auto simp add: exampleLine_def LF_def CR_def dropCR_def MaxScanTokenSize_def)

lemma extractRequestLine_example:
  "extractRequestLine exampleLine = Some ''GET /api/v1/users HTTP/1.1''"
  by (simp add: extractRequestLine_def FindStringSubmatch_def re_def exampleLine_def DQ_def ms.simps(5))

lemma timeRe_example:
  "FindStringSubmatch timeRe exampleLine = [''[01/Oct/2025:12:30:11 +0000]'', ''01/Oct/2025:12:30:11'']"
  by (simp add: FindStringSubmatch_def timeRe_def exampleLine_def eval_nat_numeral ms.simps(5))

lemma time_Parse_example: "time_Parse ''01/Oct/2025:12:30:11'' = Inr 1759321811"
  by (simp add: time_Parse_def getnum_def isDigit_def skip_def shortMonthNames_def longYear_def
      digitVal_def daysIn_def daysBefore_def isLeap_def Date_def daysSinceEpoch_def)

lemma extractTimestamp_example: "extractTimestamp exampleLine = 1759321811000000000"
  by (simp add: extractTimestamp_def timeRe_example time_Parse_example UnixNano_def wrap64_def)

lemma fmt_d_0: "fmt_d 0 = ''0''"
  by (simp add: fmt_d_def digits.simps)

lemma fmt_d_example: "fmt_d 1759321811000000000 = ''1759321811000000000''"
  by (simp add: fmt_d_def digits.simps)

text \<open>
  Claim C1. For the input that holds the one line of the end-to-end scenario (with no line
  terminator, with a line feed, or with a carriage return and a line feed), when the
  parser reports the line as matched, the random source delivers its bytes and the writes
  succeed, \<open>processLogs\<close> returns the count 1 and no error, and the writer was given
  exactly three segments: the header with the identifier and the timestamp
  1759321811000000000, the request line followed by CR LF CR LF LF, and the delimiter
  followed by a line feed.
\<close>

theorem example_line_record:
  assumes "\<not> malformed p exampleLine" and "rnd 0 = Inr g" and "\<And>h d. w h d = Written"
    and "t \<in> {[], [LF], [CR, LF]}"
  shows "processLogs \<lparr>content = exampleLine @ t, failure = None\<rparr> w p rnd =
     (1, None, \<lparr>processedCount = 1, randCalls = 1, written =
        [''1 '' @ EncodeToString (map g [0..<12]) @ '' 1759321811000000000 0'' @ [LF],
         ''GET /api/v1/users HTTP/1.1'' @ [CR, LF, CR, LF, LF],
         gorPayloadDelimiter @ [LF]]\<rparr>)"
proof -
  have ne: "exampleLine \<noteq> []" by (simp add: exampleLine_def)
  have sc: "Scan \<lparr>content = exampleLine @ t, failure = None\<rparr> = ([exampleLine], None)"
    using assms(4) by (simp add: Scan_def scan_example del: insert_iff)
  have body: "loopBody p rnd w exampleLine initial = Continue \<lparr>processedCount = 1, randCalls = 1, written =
        [''1 '' @ EncodeToString (map g [0..<12]) @ '' 1759321811000000000 0'' @ [LF],
         ''GET /api/v1/users HTTP/1.1'' @ [CR, LF, CR, LF, LF],
         gorPayloadDelimiter @ [LF]]\<rparr>"
    using assms(1-3) ne
    by (simp add: loopBody_def extractRequestLine_example extractTimestamp_example
        generateRequestID_def writeRecord_def Fprintf_def header_def fmt_d_example fmt_d_0 initial_def)
  show ?thesis
    by (simp add: processLogs_def sc body)
qed

theorem example_line_record_witness:
  "processLogs \<lparr>content = exampleLine @ [LF], failure = None\<rparr> okWriter acceptAll countingRand =
     (1, None, \<lparr>processedCount = 1, randCalls = 1, written =
        [''1 000102030405060708090a0b 1759321811000000000 0'' @ [LF],
         ''GET /api/v1/users HTTP/1.1'' @ [CR, LF, CR, LF, LF],
         gorPayloadDelimiter @ [LF]]\<rparr>)"
proof -
  have a: "\<not> malformed acceptAll exampleLine" by (simp add: malformed_def acceptAll_def)
  have b: "countingRand 0 = Inr (\<lambda>i. of_nat i)" by (simp add: countingRand_def)
  have c: "\<And>h d. okWriter h d = Written" by (simp add: okWriter_def)
  have d: "[LF] \<in> {[], [LF], [CR, LF]}" by simp
  have e: "EncodeToString (map (\<lambda>i. of_nat i) [0..<12]) = ''000102030405060708090a0b''"
    by (simp add: EncodeToString_def hextable_def upt_conv_Cons drop_bit_eq_div)
  show ?thesis using example_line_record [of acceptAll countingRand _ okWriter "[LF]", OF a b c d]
    by (simp add: e)
qed

section \<open>One iteration of the loop\<close>

lemma writeRecord_cases:
  "writeRecord w reqID ts rl st =
     (case w (written st) (header reqID ts) of
        ShortWrite n e \<Rightarrow>
          Return (st\<lparr>written := written st @ [take n (header reqID ts)]\<rparr>)
            (Wrapf ''failed to write header'' e)
      | Written \<Rightarrow>
     (case w (written st @ [header reqID ts]) (rl @ [CR, LF, CR, LF, LF]) of
        ShortWrite n e \<Rightarrow>
          Return (st\<lparr>written := written st @ [header reqID ts, take n (rl @ [CR, LF, CR, LF, LF])]\<rparr>)
            (Wrapf ''failed to write request line'' e)
      | Written \<Rightarrow>
     (case w (written st @ [header reqID ts, rl @ [CR, LF, CR, LF, LF]]) (gorPayloadDelimiter @ [LF]) of
        ShortWrite n e \<Rightarrow>
          Return (st\<lparr>written := written st @ [header reqID ts, rl @ [CR, LF, CR, LF, LF],
                                               take n (gorPayloadDelimiter @ [LF])]\<rparr>)
            (Wrapf ''failed to write delimiter'' e)
      | Written \<Rightarrow>
          Continue (st\<lparr>written := written st @ [header reqID ts, rl @ [CR, LF, CR, LF, LF],
                                                 gorPayloadDelimiter @ [LF]],
                        processedCount := Suc (processedCount st)\<rparr>))))"
  by (simp add: writeRecord_def Fprintf_def split: wresult.splits)

lemma loopBody_skip:
  "line = [] \<or> malformed p line \<or> extractRequestLine line = None \<Longrightarrow>
     loopBody p rnd w line st = Continue st"
  by (auto simp: loopBody_def)

lemma loopBody_no_id:
  "\<lbrakk>line \<noteq> []; \<not> malformed p line; extractRequestLine line = Some rl; rnd (randCalls st) = Inl e\<rbrakk>
   \<Longrightarrow> loopBody p rnd w line st = Continue (st\<lparr>randCalls := Suc (randCalls st)\<rparr>)"
  by (simp add: loopBody_def generateRequestID_def)

lemma loopBody_write:
  "\<lbrakk>line \<noteq> []; \<not> malformed p line; extractRequestLine line = Some rl; rnd (randCalls st) = Inr g\<rbrakk>
   \<Longrightarrow> loopBody p rnd w line st =
       writeRecord w (EncodeToString (map g [0..<12])) (extractTimestamp line) rl
         (st\<lparr>randCalls := Suc (randCalls st)\<rparr>)"
  by (simp add: loopBody_def generateRequestID_def)

lemma loopBody_counted:
  assumes "loopBody p rnd w line st = Continue st'" and "processedCount st' \<noteq> processedCount st"
  shows "\<exists>rl g. line \<noteq> [] \<and> \<not> malformed p line \<and> extractRequestLine line = Some rl
      \<and> rnd (randCalls st) = Inr g
      \<and> st' = st\<lparr>randCalls := Suc (randCalls st),
                  written := written st @ [header (EncodeToString (map g [0..<12])) (extractTimestamp line),
                                           rl @ [CR, LF, CR, LF, LF], gorPayloadDelimiter @ [LF]],
                  processedCount := Suc (processedCount st)\<rparr>"
proof -
  have a: "line \<noteq> []" "\<not> malformed p line" "extractRequestLine line \<noteq> None"
    using assms loopBody_skip[of line p rnd w st] by auto
  then obtain rl where rl: "extractRequestLine line = Some rl" by auto
  show ?thesis
  proof (cases "rnd (randCalls st)")
    case (Inl e)
    with assms a rl show ?thesis by (auto simp: loopBody_no_id)
  next
    case (Inr g)
    with assms a rl show ?thesis
      by (auto simp: loopBody_write writeRecord_cases split: wresult.splits)
  qed
qed

lemma hex_digit: "n < 16 \<Longrightarrow> hextable ! n \<in> set hextable"
proof -
  have "length hextable = 16" by (simp add: hextable_def)
  then show "n < 16 \<Longrightarrow> hextable ! n \<in> set hextable" by (metis nth_mem)
qed

lemma EncodeToString_length: "length (EncodeToString bs) = 2 * length bs"
  by (induction bs) (simp_all add: EncodeToString_def)

lemma EncodeToString_set: "set (EncodeToString bs) \<subseteq> set hextable"
proof -
  have "unat (drop_bit 4 v) < 16" for v :: byte
  proof -
    have "unat (drop_bit 4 v) = unat v div 16" by (simp add: unat_drop_bit_eq drop_bit_eq_div unat_div)
    moreover have "unat v < 256" using unsigned_less[of v] by simp
    ultimately show ?thesis by simp
  qed
  moreover have "unat (v AND 0x0f) < 16" for v :: byte
  proof -
    have "v AND 0x0f \<le> 0x0f" by (rule word_and_le1)
    then have "unat (v AND 0x0f) \<le> unat (0x0f :: byte)" by (simp add: word_le_nat_alt)
    then show ?thesis by simp
  qed
  ultimately show ?thesis
    by (auto simp: EncodeToString_def intro: hex_digit)
qed

section \<open>The record of a converted line\<close>

lemma gorPayloadDelimiter_bytes:
  "gorPayloadDelimiter = [CHR 0xF0, CHR 0x9F, CHR 0x90, CHR 0xB5, CHR 0xF0, CHR 0x9F, CHR 0x99, CHR 0x88,
                          CHR 0xF0, CHR 0x9F, CHR 0x99, CHR 0x89]"
  by (simp add: gorPayloadDelimiter_def utf8_def char_of_def bit_0)

lemma digit_table: "n < 10 \<Longrightarrow> digitVal (''0123456789'' ! n) = n"
proof -
  assume "n < 10"
  then consider "n = 0" | "n = 1" | "n = 2" | "n = 3" | "n = 4" | "n = 5" | "n = 6" | "n = 7"
    | "n = 8" | "n = 9"
    by atomize_elim arith
  then show ?thesis by cases (simp_all add: digitVal_def)
qed

text \<open>\<open>digits\<close> is the decimal notation: reading the digits back gives the number.\<close>

lemma digits_decimal: "foldl (\<lambda>a c. 10 * a + digitVal c) 0 (digits n) = n"
proof (induction n rule: digits.induct)
  case (1 n)
  show ?case
  proof (cases "n < 10")
    case True
    then show ?thesis by (subst digits.simps) (simp add: digit_table)
  next
    case False
    with 1 have "foldl (\<lambda>a c. 10 * a + digitVal c) 0 (digits (n div 10)) = n div 10" by simp
    with False show ?thesis by (subst digits.simps) (simp add: digit_table)
  qed
qed

lemma header_eq:
  "header reqID ts = ''1'' @ '' '' @ reqID @ '' '' @ fmt_d ts @ '' '' @ ''0'' @ [LF]"
  by (simp add: header_def fmt_d_0)

lemma extractTimestamp_unknown:
  "length (FindStringSubmatch timeRe line) \<noteq> 2 \<or> isl (time_Parse (FindStringSubmatch timeRe line ! 1))
   \<Longrightarrow> extractTimestamp line = 0"
  by (auto simp: extractTimestamp_def Let_def split: sum.splits)

lemma extractRequestLine_Some:
  assumes "extractRequestLine line = Some rl"
  shows "\<exists>m path proto. isRequestLine m path proto \<and> rl = m @ '' '' @ path @ '' '' @ proto
      \<and> FindStringSubmatch re line = [quoted m path proto, m, path, proto]"
proof -
  from assms have len: "length (FindStringSubmatch re line) = 4"
    by (simp add: extractRequestLine_def Let_def split: if_splits)
  from find_re_first[OF len] obtain m path proto where f: "isRequestLine m path proto"
      "FindStringSubmatch re line = [quoted m path proto, m, path, proto]"
    by blast
  with assms show ?thesis by (auto simp: extractRequestLine_def)
qed

text \<open>
  Claim C2. A line is converted when the iteration goes on with the counter advanced.
  Then the iteration made exactly three writes, after everything written before: the
  header \<^verbatim>\<open>1\<close>, space, the identifier of 24 lowercase hexadecimal characters, space, the
  timestamp in decimal, space, \<^verbatim>\<open>0\<close>, line feed; the request line \<^verbatim>\<open>METHOD PATH PROTOCOL\<close>
  as it was matched, followed by CR LF CR LF LF; and the delimiter, the twelve bytes that
  encode the three code points, followed by a line feed. The timestamp is zero when the
  timestamp pattern does not match or the time does not parse.
\<close>

theorem converted_line_writes_one_record:
  assumes "loopBody p rnd w line st = Continue st'" and "processedCount st' \<noteq> processedCount st"
  shows "\<exists>reqID m path proto.
      written st' = written st @
        [''1'' @ '' '' @ reqID @ '' '' @ fmt_d (extractTimestamp line) @ '' '' @ ''0'' @ [LF],
         m @ '' '' @ path @ '' '' @ proto @ [CR, LF, CR, LF, LF],
         gorPayloadDelimiter @ [LF]]
      \<and> length reqID = 24 \<and> set reqID \<subseteq> set ''0123456789abcdef''
      \<and> isRequestLine m path proto
      \<and> FindStringSubmatch re line = [quoted m path proto, m, path, proto]
      \<and> processedCount st' = Suc (processedCount st)
      \<and> (length (FindStringSubmatch timeRe line) \<noteq> 2
           \<or> isl (time_Parse (FindStringSubmatch timeRe line ! 1)) \<longrightarrow> extractTimestamp line = 0)
      \<and> gorPayloadDelimiter = utf8 0x1F435 @ utf8 0x1F648 @ utf8 0x1F649
      \<and> gorPayloadDelimiter = [CHR 0xF0, CHR 0x9F, CHR 0x90, CHR 0xB5, CHR 0xF0, CHR 0x9F, CHR 0x99,
                                CHR 0x88, CHR 0xF0, CHR 0x9F, CHR 0x99, CHR 0x89]"
proof -
  from loopBody_counted[OF assms] obtain rl g where c: "extractRequestLine line = Some rl"
      "st' = st\<lparr>randCalls := Suc (randCalls st),
                written := written st @ [header (EncodeToString (map g [0..<12])) (extractTimestamp line),
                                         rl @ [CR, LF, CR, LF, LF], gorPayloadDelimiter @ [LF]],
                processedCount := Suc (processedCount st)\<rparr>"
    by blast
  from extractRequestLine_Some[OF c(1)] obtain m path proto where r: "isRequestLine m path proto"
      "rl = m @ '' '' @ path @ '' '' @ proto"
      "FindStringSubmatch re line = [quoted m path proto, m, path, proto]"
    by blast
  let ?id = "EncodeToString (map g [0..<12])"
  have "length ?id = 24" by (simp add: EncodeToString_length)
  moreover have "set ?id \<subseteq> set ''0123456789abcdef''"
    using EncodeToString_set[of "map g [0..<12]"] unfolding hextable_def .
  moreover have "written st' = written st @
        [''1'' @ '' '' @ ?id @ '' '' @ fmt_d (extractTimestamp line) @ '' '' @ ''0'' @ [LF],
         m @ '' '' @ path @ '' '' @ proto @ [CR, LF, CR, LF, LF],
         gorPayloadDelimiter @ [LF]]"
    unfolding c(2) r(2) header_eq by simp
  moreover have "processedCount st' = Suc (processedCount st)"
    unfolding c(2) by simp
  moreover note r(1,3) extractTimestamp_unknown[of line] gorPayloadDelimiter_def gorPayloadDelimiter_bytes
  ultimately show ?thesis by blast
qed

theorem converted_line_writes_one_record_witness:
  "loopBody acceptAll countingRand okWriter exampleLine initial
     = Continue \<lparr>processedCount = 1, randCalls = 1, written =
        [''1 000102030405060708090a0b 1759321811000000000 0'' @ [LF],
         ''GET /api/v1/users HTTP/1.1'' @ [CR, LF, CR, LF, LF],
         gorPayloadDelimiter @ [LF]]\<rparr>
   \<and> (\<exists>reqID m path proto.
      [''1 000102030405060708090a0b 1759321811000000000 0'' @ [LF],
       ''GET /api/v1/users HTTP/1.1'' @ [CR, LF, CR, LF, LF], gorPayloadDelimiter @ [LF]] =
        [''1'' @ '' '' @ reqID @ '' '' @ fmt_d (extractTimestamp exampleLine) @ '' '' @ ''0'' @ [LF],
         m @ '' '' @ path @ '' '' @ proto @ [CR, LF, CR, LF, LF],
         gorPayloadDelimiter @ [LF]]
      \<and> length reqID = 24 \<and> set reqID \<subseteq> set ''0123456789abcdef''
      \<and> isRequestLine m path proto
      \<and> FindStringSubmatch re exampleLine = [quoted m path proto, m, path, proto])"
proof -
  have e: "EncodeToString (map (\<lambda>i. of_nat i) [0..<12]) = ''000102030405060708090a0b''"
    by (simp add: EncodeToString_def hextable_def upt_conv_Cons drop_bit_eq_div)
  have ne: "exampleLine \<noteq> []" by (simp add: exampleLine_def)
  have b: "loopBody acceptAll countingRand okWriter exampleLine initial
     = Continue \<lparr>processedCount = 1, randCalls = 1, written =
        [''1 000102030405060708090a0b 1759321811000000000 0'' @ [LF],
         ''GET /api/v1/users HTTP/1.1'' @ [CR, LF, CR, LF, LF],
         gorPayloadDelimiter @ [LF]]\<rparr>"
    using ne
    by (simp add: loopBody_def malformed_def acceptAll_def extractRequestLine_example
        extractTimestamp_example generateRequestID_def countingRand_def e writeRecord_def
        Fprintf_def okWriter_def header_def fmt_d_example fmt_d_0 initial_def)
  have c: "processedCount \<lparr>processedCount = 1, randCalls = 1, written =
        [''1 000102030405060708090a0b 1759321811000000000 0'' @ [LF],
         ''GET /api/v1/users HTTP/1.1'' @ [CR, LF, CR, LF, LF],
         gorPayloadDelimiter @ [LF]]\<rparr> \<noteq> processedCount initial"
    by (simp add: initial_def)
  from converted_line_writes_one_record[OF b c] b show ?thesis
    by (simp add: initial_def) blast
qed

section \<open>The request identifier\<close>

text \<open>
  Claim C7. An identifier that \<open>generateRequestID\<close> returns is the hexadecimal encoding of
  the 12 bytes the random source delivered: 24 characters, each a digit or a letter from
  \<^verbatim>\<open>a\<close> to \<^verbatim>\<open>f\<close>. The header of a converted line carries the identifier generated for that
  line. When the random source fails, the iteration goes on to the next line with
  nothing written and the counter unchanged.
\<close>

theorem request_id_is_24_lowercase_hex:
  "(\<forall>reqID. generateRequestID rnd k = Inr reqID \<longrightarrow>
      (\<exists>g. rnd k = Inr g \<and> reqID = EncodeToString (map g [0..<12]))
      \<and> length reqID = 24 \<and> set reqID \<subseteq> set ''0123456789abcdef'')
   \<and> (\<forall>st'. loopBody p rnd w line st = Continue st' \<and> processedCount st' \<noteq> processedCount st \<longrightarrow>
      (\<exists>reqID. generateRequestID rnd (randCalls st) = Inr reqID
        \<and> written st' ! length (written st) = header reqID (extractTimestamp line)))
   \<and> (\<forall>e. rnd (randCalls st) = Inl e \<longrightarrow>
      (\<exists>st'. loopBody p rnd w line st = Continue st' \<and> written st' = written st
        \<and> processedCount st' = processedCount st))"
proof (intro conjI allI impI)
  fix reqID assume a: "generateRequestID rnd k = Inr reqID"
  then obtain g where g: "rnd k = Inr g" "reqID = EncodeToString (map g [0..<12])"
    by (auto simp: generateRequestID_def split: sum.splits)
  then show "\<exists>g. rnd k = Inr g \<and> reqID = EncodeToString (map g [0..<12])" by blast
  show "length reqID = 24" unfolding g(2) by (simp add: EncodeToString_length)
  show "set reqID \<subseteq> set ''0123456789abcdef''"
    unfolding g(2) using EncodeToString_set[of "map g [0..<12]"] unfolding hextable_def .
next
  fix st' assume "loopBody p rnd w line st = Continue st' \<and> processedCount st' \<noteq> processedCount st"
  then have "loopBody p rnd w line st = Continue st'" "processedCount st' \<noteq> processedCount st"
    by simp_all
  from loopBody_counted[OF this] obtain rl g where c: "rnd (randCalls st) = Inr g"
      "st' = st\<lparr>randCalls := Suc (randCalls st),
                written := written st @ [header (EncodeToString (map g [0..<12])) (extractTimestamp line),
                                         rl @ [CR, LF, CR, LF, LF], gorPayloadDelimiter @ [LF]],
                processedCount := Suc (processedCount st)\<rparr>"
    by blast
  show "\<exists>reqID. generateRequestID rnd (randCalls st) = Inr reqID
        \<and> written st' ! length (written st) = header reqID (extractTimestamp line)"
    unfolding c(2) by (simp add: generateRequestID_def c(1))
next
  fix e assume e: "rnd (randCalls st) = Inl e"
  show "\<exists>st'. loopBody p rnd w line st = Continue st' \<and> written st' = written st
        \<and> processedCount st' = processedCount st"
  proof (cases "line = [] \<or> malformed p line \<or> extractRequestLine line = None")
    case True
    then show ?thesis by (simp add: loopBody_skip)
  next
    case False
    then obtain rl where "line \<noteq> []" "\<not> malformed p line" "extractRequestLine line = Some rl"
      by auto
    with e show ?thesis by (simp add: loopBody_no_id)
  qed
qed

theorem request_id_is_24_lowercase_hex_witness:
  "generateRequestID countingRand 0 = Inr ''000102030405060708090a0b''
   \<and> length ''000102030405060708090a0b'' = 24
   \<and> set ''000102030405060708090a0b'' \<subseteq> set ''0123456789abcdef''
   \<and> failingRand (randCalls initial) = Inl (Err ''entropy source unavailable'')
   \<and> loopBody acceptAll failingRand okWriter exampleLine initial = Continue (initial\<lparr>randCalls := 1\<rparr>)
   \<and> (\<exists>st'. loopBody acceptAll failingRand okWriter exampleLine initial = Continue st'
        \<and> written st' = written initial \<and> processedCount st' = processedCount initial)"
proof -
  have e: "EncodeToString (map (\<lambda>i. of_nat i) [0..<12]) = ''000102030405060708090a0b''"
    by (simp add: EncodeToString_def hextable_def upt_conv_Cons drop_bit_eq_div)
  have a: "generateRequestID countingRand 0 = Inr ''000102030405060708090a0b''"
    by (simp add: generateRequestID_def countingRand_def e)
  have f: "failingRand (randCalls initial) = Inl (Err ''entropy source unavailable'')"
    by (simp add: failingRand_def)
  have ne: "exampleLine \<noteq> []" by (simp add: exampleLine_def)
  have b: "loopBody acceptAll failingRand okWriter exampleLine initial = Continue (initial\<lparr>randCalls := 1\<rparr>)"
    using ne by (simp add: loopBody_def malformed_def acceptAll_def extractRequestLine_example
        generateRequestID_def failingRand_def initial_def)
  from request_id_is_24_lowercase_hex[of countingRand 0 acceptAll okWriter exampleLine initial]
    request_id_is_24_lowercase_hex[of failingRand 0 acceptAll okWriter exampleLine initial]
  have "(\<forall>reqID. generateRequestID countingRand 0 = Inr reqID \<longrightarrow>
          length reqID = 24 \<and> set reqID \<subseteq> set ''0123456789abcdef'')"
    and "\<forall>e. failingRand (randCalls initial) = Inl e \<longrightarrow>
      (\<exists>st'. loopBody acceptAll failingRand okWriter exampleLine initial = Continue st'
        \<and> written st' = written initial \<and> processedCount st' = processedCount initial)"
    by blast+
  with a f b show ?thesis by blast
qed

section \<open>A timestamp that cannot be read\<close>




section \<open>The loop\<close>

lemma loop_append:
  "loop p rnd w (xs @ ys) st =
     (case loop p rnd w xs st of Return st' e \<Rightarrow> Return st' e | Continue st' \<Rightarrow> loop p rnd w ys st')"
  by (induction xs arbitrary: st) (auto split: outcome.splits)

lemma framed_append: "framed (xs @ ys) = framed xs @ framed ys"
  by (simp add: framed_def)

lemma framed_single: "framed [(h, q)] = [h, q, gorPayloadDelimiter @ [LF]]"
  by (simp add: framed_def)

text \<open>
  What one iteration does to the output and the counter: nothing; or one complete
  record and one more in the counter; or a return after a failed write, with between one
  and three segments added (the last one is what the failed call took) and the counter
  as it was.
\<close>

lemma loopBody_outcomes:
  "(\<exists>st'. loopBody p rnd w line st = Continue st' \<and> written st' = written st
        \<and> processedCount st' = processedCount st)
   \<or> (\<exists>st' reqID rl. loopBody p rnd w line st = Continue st'
        \<and> extractRequestLine line = Some rl
        \<and> written st' = written st @ framed [(header reqID (extractTimestamp line), rl @ [CR, LF, CR, LF, LF])]
        \<and> processedCount st' = Suc (processedCount st))
   \<or> (\<exists>st' e0 k part. loopBody p rnd w line st = Return st' (Wrapf (writeErrors ! k) e0) \<and> k < 3
        \<and> written st' = written st @ part \<and> length part = Suc k
        \<and> processedCount st' = processedCount st)"
proof (cases "line = [] \<or> malformed p line \<or> extractRequestLine line = None")
  case True
  then show ?thesis by (simp add: loopBody_skip)
next
  case False
  then obtain rl where a: "line \<noteq> []" "\<not> malformed p line" "extractRequestLine line = Some rl"
    by auto
  show ?thesis
  proof (cases "rnd (randCalls st)")
    case (Inl e)
    with a show ?thesis by (simp add: loopBody_no_id)
  next
    case (Inr g)
    let ?h = "header (EncodeToString (map g [0..<12])) (extractTimestamp line)"
    let ?st = "st\<lparr>randCalls := Suc (randCalls st)\<rparr>"
    have lb: "loopBody p rnd w line st = writeRecord w (EncodeToString (map g [0..<12])) (extractTimestamp line) rl ?st"
      using a Inr by (simp add: loopBody_write)
    have ret: ?thesis
      if "loopBody p rnd w line st = Return st' (Wrapf (writeErrors ! k) e0)" "k < 3"
        "written st' = written st @ part" "length part = Suc k" "processedCount st' = processedCount st"
      for st' e0 k part
      using that by blast
    have cont: ?thesis
      if "loopBody p rnd w line st = Continue st'"
        "written st' = written st @ framed [(header reqID (extractTimestamp line), rl @ [CR, LF, CR, LF, LF])]"
        "processedCount st' = Suc (processedCount st)"
      for st' reqID
      using that a(3) by blast
    show ?thesis
    proof (cases "w (written st) ?h")
      case (ShortWrite n e)
      then have "loopBody p rnd w line st = Return (?st\<lparr>written := written st @ [take n ?h]\<rparr>)
          (Wrapf (writeErrors ! 0) e)"
        unfolding lb by (simp add: writeRecord_cases writeErrors_def)
      then show ?thesis by (rule ret[where k = 0 and part = "[take n ?h]"]) simp_all
    next
      case Written
      note w1 = this
      show ?thesis
      proof (cases "w (written st @ [?h]) (rl @ [CR, LF, CR, LF, LF])")
        case (ShortWrite n e)
        then have "loopBody p rnd w line st =
            Return (?st\<lparr>written := written st @ [?h, take n (rl @ [CR, LF, CR, LF, LF])]\<rparr>)
              (Wrapf (writeErrors ! 1) e)"
          unfolding lb using w1 by (simp add: writeRecord_cases writeErrors_def)
        then show ?thesis
          by (rule ret[where k = 1 and part = "[?h, take n (rl @ [CR, LF, CR, LF, LF])]"]) simp_all
      next
        case Written
        note w2 = this
        show ?thesis
        proof (cases "w (written st @ [?h, rl @ [CR, LF, CR, LF, LF]]) (gorPayloadDelimiter @ [LF])")
          case (ShortWrite n e)
          then have "loopBody p rnd w line st =
              Return (?st\<lparr>written := written st @ [?h, rl @ [CR, LF, CR, LF, LF],
                                                     take n (gorPayloadDelimiter @ [LF])]\<rparr>)
                (Wrapf (writeErrors ! 2) e)"
            unfolding lb using w1 w2 by (simp add: writeRecord_cases writeErrors_def)
          then show ?thesis
            by (rule ret[where k = 2 and part = "[?h, rl @ [CR, LF, CR, LF, LF], take n (gorPayloadDelimiter @ [LF])]"])
              simp_all
        next
          case Written
          then have "loopBody p rnd w line st =
              Continue (?st\<lparr>written := written st @ [?h, rl @ [CR, LF, CR, LF, LF],
                                                       gorPayloadDelimiter @ [LF]],
                             processedCount := Suc (processedCount st)\<rparr>)"
            unfolding lb using w1 w2 by (simp add: writeRecord_cases)
          then show ?thesis
            by (rule cont[where reqID = "EncodeToString (map g [0..<12])"]) (simp_all add: framed_single)
        qed
      qed
    qed
  qed
qed

lemma loopBody_never_returns:
  assumes "\<forall>h d. w h d = Written"
  shows "\<exists>st'. loopBody p rnd w line st = Continue st'"
proof (cases "line = [] \<or> malformed p line \<or> extractRequestLine line = None")
  case True
  then show ?thesis by (simp add: loopBody_skip)
next
  case False
  then obtain rl where a: "line \<noteq> []" "\<not> malformed p line" "extractRequestLine line = Some rl"
    by auto
  show ?thesis
  proof (cases "rnd (randCalls st)")
    case (Inl e)
    with a show ?thesis by (simp add: loopBody_no_id)
  next
    case (Inr g)
    with a show ?thesis by (simp add: loopBody_write writeRecord_cases assms)
  qed
qed

lemma loop_never_returns:
  assumes "\<forall>h d. w h d = Written"
  shows "\<exists>st'. loop p rnd w ls st = Continue st'"
proof (induction ls arbitrary: st)
  case Nil
  show ?case by simp
next
  case (Cons line ls)
  from loopBody_never_returns[OF assms]
  obtain st1 where "loopBody p rnd w line st = Continue st1" by blast
  with Cons[of st1] show ?case by simp
qed

text \<open>
  The invariant of the loop: what was written since the loop started is a sequence of
  complete records, as many as the counter advanced, followed, when a write failed, by
  the segments of the record that was being written.
\<close>

lemma loop_records:
  "(\<exists>st' recs. loop p rnd w ls st = Continue st'
        \<and> written st' = written st @ framed recs
        \<and> processedCount st' = processedCount st + length recs
        \<and> (\<forall>(h, q) \<in> set recs. (\<exists>reqID ts. h = header reqID ts)
              \<and> (\<exists>rl. q = rl @ [CR, LF, CR, LF, LF])))
   \<or> (\<exists>st' e0 k recs part. loop p rnd w ls st = Return st' (Wrapf (writeErrors ! k) e0) \<and> k < 3
        \<and> written st' = written st @ framed recs @ part \<and> length part = Suc k
        \<and> processedCount st' = processedCount st + length recs)"
proof (induction ls arbitrary: st)
  case Nil
  have "loop p rnd w [] st = Continue st \<and> written st = written st @ framed []
      \<and> processedCount st = processedCount st + length ([] :: (string \<times> string) list)
      \<and> (\<forall>(h, q) \<in> set ([] :: (string \<times> string) list). (\<exists>reqID ts. h = header reqID ts)
              \<and> (\<exists>rl. q = rl @ [CR, LF, CR, LF, LF]))"
    by (simp add: framed_def)
  then show ?case by blast
next
  case (Cons line ls)
  let ?good = "\<lambda>recs. \<forall>(h, q) \<in> set recs. (\<exists>reqID ts. h = header reqID ts)
              \<and> (\<exists>rl. q = rl @ [CR, LF, CR, LF, LF])"
  from loopBody_outcomes[of p rnd w line st]
  consider (skip) st1 where "loopBody p rnd w line st = Continue st1" "written st1 = written st"
      "processedCount st1 = processedCount st"
    | (rec) st1 reqID rl where "loopBody p rnd w line st = Continue st1"
      "written st1 = written st @ framed [(header reqID (extractTimestamp line), rl @ [CR, LF, CR, LF, LF])]"
      "processedCount st1 = Suc (processedCount st)"
    | (fail) st1 e0 k part where "loopBody p rnd w line st = Return st1 (Wrapf (writeErrors ! k) e0)"
      "k < 3" "written st1 = written st @ part" "length part = Suc k"
      "processedCount st1 = processedCount st"
    by blast
  then show ?case
  proof cases
    case skip
    from Cons[of st1] show ?thesis
      unfolding loop.simps skip(1) outcome.case skip(2,3) .
  next
    case rec
    let ?r = "(header reqID (extractTimestamp line), rl @ [CR, LF, CR, LF, LF])"
    from Cons[of st1] show ?thesis
    proof
      assume "\<exists>st' recs. loop p rnd w ls st1 = Continue st'
        \<and> written st' = written st1 @ framed recs
        \<and> processedCount st' = processedCount st1 + length recs \<and> ?good recs"
      then obtain st' recs where c: "loop p rnd w ls st1 = Continue st'"
          "written st' = written st1 @ framed recs"
          "processedCount st' = processedCount st1 + length recs" "?good recs"
        by blast
      have "loop p rnd w (line # ls) st = Continue st'" using rec(1) c(1) by simp
      moreover have "written st' = written st @ framed (?r # recs)"
        unfolding c(2) rec(2) using framed_append[of "[?r]" recs] by simp
      moreover have "processedCount st' = processedCount st + length (?r # recs)"
        unfolding c(3) rec(3) by simp
      moreover have "?good (?r # recs)" using c(4) by auto
      ultimately show ?thesis by blast
    next
      assume "\<exists>st' e0 k recs part. loop p rnd w ls st1 = Return st' (Wrapf (writeErrors ! k) e0) \<and> k < 3
        \<and> written st' = written st1 @ framed recs @ part \<and> length part = Suc k
        \<and> processedCount st' = processedCount st1 + length recs"
      then obtain st' e0 k recs part where c: "loop p rnd w ls st1 = Return st' (Wrapf (writeErrors ! k) e0)"
          "k < 3" "written st' = written st1 @ framed recs @ part" "length part = Suc k"
          "processedCount st' = processedCount st1 + length recs"
        by blast
      have "loop p rnd w (line # ls) st = Return st' (Wrapf (writeErrors ! k) e0)"
        using rec(1) c(1) by simp
      moreover have "written st' = written st @ framed (?r # recs) @ part"
        unfolding c(3) rec(2) using framed_append[of "[?r]" recs] by simp
      moreover have "processedCount st' = processedCount st + length (?r # recs)"
        unfolding c(5) rec(3) by simp
      ultimately show ?thesis using c(2,4) by blast
    qed
  next
    case fail
    have "loop p rnd w (line # ls) st = Return st1 (Wrapf (writeErrors ! k) e0)"
      using fail(1) by simp
    moreover have "written st1 = written st @ framed [] @ part"
      using fail(3) by (simp add: framed_def)
    moreover have "processedCount st1 = processedCount st + length ([] :: (string \<times> string) list)"
      using fail(5) by simp
    ultimately show ?thesis using fail(2,4) by blast
  qed
qed

lemma header_not_delimiter: "header reqID ts \<noteq> gorPayloadDelimiter @ [LF]"
proof
  assume "header reqID ts = gorPayloadDelimiter @ [LF]"
  then have "hd (header reqID ts) = hd (gorPayloadDelimiter @ [LF])" by simp
  then show False by (simp add: header_def gorPayloadDelimiter_bytes)
qed

lemma request_not_delimiter: "rl @ [CR, LF, CR, LF, LF] \<noteq> gorPayloadDelimiter @ [LF]"
proof
  assume "rl @ [CR, LF, CR, LF, LF] = gorPayloadDelimiter @ [LF]"
  then have "(rl @ [CR, LF, CR]) @ [LF, LF] = butlast gorPayloadDelimiter @ [last gorPayloadDelimiter, LF]"
    by (simp add: gorPayloadDelimiter_bytes)
  then have "LF = last gorPayloadDelimiter" by simp
  then show False by (simp add: gorPayloadDelimiter_bytes LF_def)
qed

lemma delimiters_of_framed:
  assumes "\<forall>(h, q) \<in> set recs. (\<exists>reqID ts. h = header reqID ts) \<and> (\<exists>rl. q = rl @ [CR, LF, CR, LF, LF])"
  shows "length (filter (\<lambda>seg. seg = gorPayloadDelimiter @ [LF]) (framed recs)) = length recs"
  using assms
proof (induction recs)
  case Nil
  show ?case by (simp add: framed_def)
next
  case (Cons r recs)
  obtain h q where r: "r = (h, q)" by (cases r)
  with Cons.prems have "h \<noteq> gorPayloadDelimiter @ [LF]" "q \<noteq> gorPayloadDelimiter @ [LF]"
    using header_not_delimiter request_not_delimiter by auto
  moreover have "framed (r # recs) = [h, q, gorPayloadDelimiter @ [LF]] @ framed recs"
    unfolding r by (simp add: framed_def)
  ultimately show ?case using Cons by simp
qed

lemma length_framed: "length (framed recs) = 3 * length recs"
  by (induction recs) (auto simp: framed_def)

lemma processLogs_result:
  "processLogs r w p rnd =
     (case loop p rnd w (fst (Scan r)) initial of
        Return st e \<Rightarrow> (processedCount st, Some e, st)
      | Continue st \<Rightarrow>
          (processedCount st, map_option (Wrapf ''error reading input file'') (snd (Scan r)), st))"
  by (simp add: processLogs_def split: prod.splits outcome.splits option.splits)

lemma Scan_empty: "content r = [] \<Longrightarrow> fst (Scan r) = []"
  by (simp add: Scan_def)

lemma loopBody_example:
  "loopBody acceptAll countingRand w exampleLine st =
     writeRecord w (EncodeToString (map (\<lambda>i. of_nat (16 * randCalls st + i)) [0..<12]))
       1759321811000000000 ''GET /api/v1/users HTTP/1.1'' (st\<lparr>randCalls := Suc (randCalls st)\<rparr>)"
proof -
  have "exampleLine \<noteq> []" by (simp add: exampleLine_def)
  moreover have "\<not> malformed acceptAll exampleLine" by (simp add: malformed_def acceptAll_def)
  moreover have "countingRand (randCalls st) = Inr (\<lambda>i. of_nat (16 * randCalls st + i))"
    by (simp add: countingRand_def)
  ultimately show ?thesis
    using extractRequestLine_example extractTimestamp_example
    by (simp add: loopBody_write)
qed

lemma id_0: "EncodeToString (map (\<lambda>i. of_nat i) [0..<12]) = ''000102030405060708090a0b''"
  by (simp add: EncodeToString_def hextable_def upt_conv_Cons drop_bit_eq_div)

lemma header_example:
  "header reqID 1759321811000000000 = ''1 '' @ reqID @ '' 1759321811000000000 0'' @ [LF]"
  by (simp add: header_def fmt_d_example fmt_d_0)

lemma processLogs_example:
  "processLogs \<lparr>content = exampleLine @ [LF], failure = None\<rparr> okWriter acceptAll countingRand =
     (1, None, \<lparr>processedCount = 1, randCalls = 1, written =
        [''1 000102030405060708090a0b 1759321811000000000 0'' @ [LF],
         ''GET /api/v1/users HTTP/1.1'' @ [CR, LF, CR, LF, LF],
         gorPayloadDelimiter @ [LF]]\<rparr>)"
proof -
  have "Scan \<lparr>content = exampleLine @ [LF], failure = None\<rparr> = ([exampleLine], None)"
    by (simp add: Scan_def scan_example)
  then show ?thesis
    by (simp add: processLogs_result loopBody_example writeRecord_cases okWriter_def initial_def
        id_0 header_example)
qed

section \<open>The lines of the output\<close>

lemma splitLines_line:
  "LF \<notin> set l \<Longrightarrow> splitLines (l @ LF # rest) cur = (cur @ l) # splitLines rest []"
  by (induction l arbitrary: cur) auto

lemma digits_set: "set (digits n) \<subseteq> set ''0123456789''"
proof (induction n rule: digits.induct)
  case (1 n)
  have d: "''0123456789'' ! k \<in> set ''0123456789''" if "k < 10" for k
    using that nth_mem[of k "''0123456789''"] by simp
  show ?case
  proof (cases "n < 10")
    case True
    then show ?thesis using d[of n] by (subst digits.simps) simp
  next
    case False
    have "n mod 10 < 10" by simp
    with False 1 d[of "n mod 10"] show ?thesis by (subst digits.simps) simp
  qed
qed

lemma LF_not_in_fmt_d: "LF \<notin> set (fmt_d i)"
proof -
  have "LF \<notin> set ''0123456789''" by (simp add: LF_def)
  then have "LF \<notin> set (digits n)" for n using digits_set[of n] by blast
  then show ?thesis by (simp add: fmt_d_def LF_def)
qed

lemma LF_not_in_hex: "set reqID \<subseteq> set hextable \<Longrightarrow> LF \<notin> set reqID"
proof -
  have "LF \<notin> set hextable" by (simp add: hextable_def LF_def)
  then show "set reqID \<subseteq> set hextable \<Longrightarrow> LF \<notin> set reqID" by blast
qed

lemma LF_not_in_delimiter: "LF \<notin> set gorPayloadDelimiter"
  by (simp add: gorPayloadDelimiter_bytes LF_def)

text \<open>The five lines of one record; only the last one is the delimiter.\<close>

lemma splitLines_record:
  assumes "set reqID \<subseteq> set hextable" and "LF \<notin> set rl"
  shows "splitLines (concat (framed [(header reqID ts, rl @ [CR, LF, CR, LF, LF])]) @ rest) [] =
     [''1 '' @ reqID @ '' '' @ fmt_d ts @ '' 0'', rl @ [CR], [CR], [], gorPayloadDelimiter]
     @ splitLines rest []"
proof -
  let ?h = "''1 '' @ reqID @ '' '' @ fmt_d ts @ '' 0''"
  have h: "LF \<notin> set ?h"
    using LF_not_in_hex[OF assms(1)] LF_not_in_fmt_d[of ts] by (simp add: LF_def)
  have q: "LF \<notin> set (rl @ [CR])" using assms(2) by (simp add: LF_def CR_def)
  have c: "LF \<notin> set [CR]" by (simp add: LF_def CR_def)
  let ?x4 = "gorPayloadDelimiter @ LF # rest"
  let ?x3 = "[] @ LF # ?x4"
  let ?x2 = "[CR] @ LF # ?x3"
  let ?x1 = "(rl @ [CR]) @ LF # ?x2"
  have e: "concat (framed [(header reqID ts, rl @ [CR, LF, CR, LF, LF])]) @ rest = ?h @ LF # ?x1"
    by (simp add: framed_single header_eq)
  have s0: "splitLines (?h @ LF # ?x1) [] = ([] @ ?h) # splitLines ?x1 []"
    using h by (rule splitLines_line)
  have s1: "splitLines ?x1 [] = ([] @ (rl @ [CR])) # splitLines ?x2 []"
    using q by (rule splitLines_line)
  have s2: "splitLines ?x2 [] = ([] @ [CR]) # splitLines ?x3 []"
    using c by (rule splitLines_line)
  have s3: "splitLines ?x3 [] = [] # splitLines ?x4 []"
    by simp
  have s4: "splitLines ?x4 [] = ([] @ gorPayloadDelimiter) # splitLines rest []"
    using LF_not_in_delimiter by (rule splitLines_line)
  show ?thesis
    unfolding e s0 s1 s2 s3 s4 by simp
qed

lemma delimiter_lines_of_framed:
  assumes "\<forall>(h, q) \<in> set recs. (\<exists>reqID ts. h = header reqID ts \<and> set reqID \<subseteq> set hextable)
      \<and> (\<exists>rl. q = rl @ [CR, LF, CR, LF, LF] \<and> LF \<notin> set rl)"
  shows "length (filter (\<lambda>l. l = gorPayloadDelimiter) (splitLines (concat (framed recs)) [])) = length recs"
  using assms
proof (induction recs)
  case Nil
  show ?case by (simp add: framed_def)
next
  case (Cons r recs)
  from Cons.prems obtain reqID ts rl where r: "r = (header reqID ts, rl @ [CR, LF, CR, LF, LF])"
      "set reqID \<subseteq> set hextable" "LF \<notin> set rl"
    by (cases r) auto
  have "concat (framed (r # recs)) = concat (framed [r]) @ concat (framed recs)"
    using framed_append[of "[r]" recs] by simp
  then have sp: "splitLines (concat (framed (r # recs))) [] =
      [''1 '' @ reqID @ '' '' @ fmt_d ts @ '' 0'', rl @ [CR], [CR], [], gorPayloadDelimiter]
      @ splitLines (concat (framed recs)) []"
    unfolding r(1) using splitLines_record[OF r(2,3)] by simp
  have n1: "''1 '' @ reqID @ '' '' @ fmt_d ts @ '' 0'' \<noteq> gorPayloadDelimiter"
    by (simp add: gorPayloadDelimiter_bytes)
  have n2: "rl @ [CR] \<noteq> gorPayloadDelimiter"
  proof
    assume "rl @ [CR] = gorPayloadDelimiter"
    then have "last (rl @ [CR]) = last gorPayloadDelimiter" by simp
    then show False by (simp add: gorPayloadDelimiter_bytes CR_def)
  qed
  have n3: "[CR] \<noteq> gorPayloadDelimiter" "[] \<noteq> gorPayloadDelimiter"
    by (simp_all add: gorPayloadDelimiter_bytes)
  from Cons have "length (filter (\<lambda>l. l = gorPayloadDelimiter) (splitLines (concat (framed recs)) [])) = length recs"
    by simp
  with n1 n2 n3 show ?case unfolding sp by simp
qed

lemma dropCR_set: "set (dropCR l) \<subseteq> set l"
  by (auto simp: dropCR_def dest: in_set_butlastD)

lemma scan_no_LF:
  "LF \<notin> set cur \<Longrightarrow> \<forall>l \<in> set (fst (scan s cur)). LF \<notin> set l"
proof (induction s arbitrary: cur)
  case Nil
  then show ?case using dropCR_set[of cur] by auto
next
  case (Cons x xs)
  show ?case
  proof (cases "x = LF")
    case True
    have "\<forall>l \<in> set (fst (scan xs [])). LF \<notin> set l" using Cons.IH[of "[]"] by simp
    with True Cons.prems dropCR_set[of cur] show ?thesis
      by (auto simp: case_prod_unfold)
  next
    case False
    with Cons.prems have "LF \<notin> set (cur @ [x])" by simp
    from Cons.IH[OF this] False show ?thesis by simp
  qed
qed

lemma Scan_no_LF: "\<forall>l \<in> set (fst (Scan r)). LF \<notin> set l"
  using scan_no_LF[of "[]" "content r"] by (simp add: Scan_def split: prod.splits option.splits)

lemma extractRequestLine_set: "extractRequestLine line = Some rl \<Longrightarrow> set rl \<subseteq> set line"
proof -
  assume a: "extractRequestLine line = Some rl"
  then have "length (FindStringSubmatch re line) = 4"
    by (simp add: extractRequestLine_def Let_def split: if_splits)
  from find_re_first[OF this] obtain pre m path proto post where f:
      "line = pre @ quoted m path proto @ post"
      "FindStringSubmatch re line = [quoted m path proto, m, path, proto]"
    by blast
  have "rl = m @ '' '' @ path @ '' '' @ proto"
    using a by (simp add: extractRequestLine_def f(2))
  then show "set rl \<subseteq> set line"
    by (subst f(1)) (auto simp: quoted_def)
qed

lemma loop_lines:
  assumes "\<forall>l \<in> set ls. LF \<notin> set l" and "loop p rnd w ls st = Continue st'"
  shows "\<exists>recs. written st' = written st @ framed recs
      \<and> processedCount st' = processedCount st + length recs
      \<and> (\<forall>(h, q) \<in> set recs. (\<exists>reqID ts. h = header reqID ts \<and> set reqID \<subseteq> set hextable)
            \<and> (\<exists>rl. q = rl @ [CR, LF, CR, LF, LF] \<and> LF \<notin> set rl))"
  using assms
proof (induction ls arbitrary: st)
  case Nil
  then have "written st' = written st @ framed [] \<and> processedCount st' = processedCount st + length ([] :: (string \<times> string) list)"
    by (simp add: framed_def)
  then show ?case by (intro exI[of _ "[]"]) simp
next
  case (Cons line ls)
  let ?good = "\<lambda>recs. \<forall>(h, q) \<in> set recs. (\<exists>reqID ts. h = header reqID ts \<and> set reqID \<subseteq> set hextable)
            \<and> (\<exists>rl. q = rl @ [CR, LF, CR, LF, LF] \<and> LF \<notin> set rl)"
  from Cons.prems(2) obtain st1 where b: "loopBody p rnd w line st = Continue st1"
      "loop p rnd w ls st1 = Continue st'"
    by (auto split: outcome.splits)
  from Cons.prems(1) have ls: "\<forall>l \<in> set ls. LF \<notin> set l" and line: "LF \<notin> set line" by simp_all
  from Cons.IH[OF ls b(2)] obtain recs where c: "written st' = written st1 @ framed recs"
      "processedCount st' = processedCount st1 + length recs" "?good recs"
    by blast
  show ?case
  proof (cases "processedCount st1 = processedCount st")
    case True
    with loopBody_outcomes[of p rnd w line st] b(1) have "written st1 = written st" by auto
    with c True show ?thesis by auto
  next
    case False
    from loopBody_counted[OF b(1) False] obtain rl g where d: "extractRequestLine line = Some rl"
        "st1 = st\<lparr>randCalls := Suc (randCalls st),
                  written := written st @ [header (EncodeToString (map g [0..<12])) (extractTimestamp line),
                                           rl @ [CR, LF, CR, LF, LF], gorPayloadDelimiter @ [LF]],
                  processedCount := Suc (processedCount st)\<rparr>"
      by blast
    let ?r = "(header (EncodeToString (map g [0..<12])) (extractTimestamp line), rl @ [CR, LF, CR, LF, LF])"
    have "LF \<notin> set rl" using extractRequestLine_set[OF d(1)] line by blast
    then have "?good (?r # recs)" using c(3) EncodeToString_set[of "map g [0..<12]"] by auto
    moreover have "written st' = written st @ framed (?r # recs)"
      unfolding c(1) d(2) using framed_append[of "[?r]" recs] by (simp add: framed_single)
    moreover have "processedCount st' = processedCount st + length (?r # recs)"
      unfolding c(2) d(2) by simp
    ultimately show ?thesis by blast
  qed
qed

section \<open>The count and the records\<close>

text \<open>
  Claim C9. The count returned is the counter, and what the writer was given is that many
  complete records of three segments, followed by nothing unless a write failed; then
  the error names the write and the segments of the unfinished record follow (the last
  one is what the failed call took). When no error is returned, exactly as many lines of
  the bytes written as the count are the delimiter, exactly as many segments as the
  count are the delimiter line, and there are three segments for each record. The
  empty input gives the count zero and no byte written. In one iteration the counter
  either keeps its value, with either nothing written or a failed write, or advances by
  one, after the three segments of one record were written.
\<close>

theorem count_is_number_of_records:
  assumes "processLogs r w p rnd = (n, err, st)"
  shows "processedCount st = n
    \<and> (\<exists>recs part. written st = framed recs @ part \<and> length recs = n
          \<and> (part = [] \<or> (\<exists>k e0. k < 3 \<and> err = Some (Wrapf (writeErrors ! k) e0) \<and> length part = Suc k)))
    \<and> (err = None \<longrightarrow>
          length (filter (\<lambda>l. l = gorPayloadDelimiter) (splitLines (concat (written st)) [])) = n
          \<and> length (filter (\<lambda>seg. seg = gorPayloadDelimiter @ [LF]) (written st)) = n
          \<and> length (written st) = 3 * n)
    \<and> (content r = [] \<longrightarrow> n = 0 \<and> written st = [] \<and> concat (written st) = [])
    \<and> (\<forall>line st0.
          (\<exists>st'. loopBody p rnd w line st0 = Continue st' \<and> written st' = written st0
              \<and> processedCount st' = processedCount st0)
          \<or> (\<exists>st' reqID rl. loopBody p rnd w line st0 = Continue st'
              \<and> extractRequestLine line = Some rl
              \<and> written st' = written st0 @
                   [header reqID (extractTimestamp line), rl @ [CR, LF, CR, LF, LF], gorPayloadDelimiter @ [LF]]
              \<and> processedCount st' = Suc (processedCount st0))
          \<or> (\<exists>st' e0 k part. loopBody p rnd w line st0 = Return st' (Wrapf (writeErrors ! k) e0) \<and> k < 3
              \<and> written st' = written st0 @ part \<and> length part = Suc k
              \<and> processedCount st' = processedCount st0))"
proof -
  let ?ls = "fst (Scan r)"
  let ?good = "\<lambda>recs. \<forall>(h, q) \<in> set recs. (\<exists>reqID ts. h = header reqID ts)
              \<and> (\<exists>rl. q = rl @ [CR, LF, CR, LF, LF])"
  have init: "written initial = []" "processedCount initial = 0" by (simp_all add: initial_def)
  have main: "processedCount st = n
    \<and> (\<exists>recs part. written st = framed recs @ part \<and> length recs = n
          \<and> (part = [] \<or> (\<exists>k e0. k < 3 \<and> err = Some (Wrapf (writeErrors ! k) e0) \<and> length part = Suc k)))
    \<and> (err = None \<longrightarrow>
          length (filter (\<lambda>l. l = gorPayloadDelimiter) (splitLines (concat (written st)) [])) = n
          \<and> length (filter (\<lambda>seg. seg = gorPayloadDelimiter @ [LF]) (written st)) = n
          \<and> length (written st) = 3 * n)"
    using loop_records[of p rnd w ?ls initial]
  proof
    assume "\<exists>st' recs. loop p rnd w ?ls initial = Continue st'
        \<and> written st' = written initial @ framed recs
        \<and> processedCount st' = processedCount initial + length recs \<and> ?good recs"
    then obtain st' recs where c: "loop p rnd w ?ls initial = Continue st'"
        "written st' = framed recs" "processedCount st' = length recs" "?good recs"
      unfolding init by auto
    from assms c(1) have e: "st = st'" "n = processedCount st'" by (auto simp: processLogs_result)
    have "written st = framed recs @ []" using c(2) e by simp
    moreover have "length (filter (\<lambda>seg. seg = gorPayloadDelimiter @ [LF]) (written st)) = n"
      using delimiters_of_framed[OF c(4)] c(2,3) e by simp
    moreover have "length (written st) = 3 * n"
      using c(2,3) e by (simp add: length_framed)
    moreover have "length (filter (\<lambda>l. l = gorPayloadDelimiter) (splitLines (concat (written st)) [])) = n"
    proof -
      from loop_lines[OF Scan_no_LF c(1)] obtain recs' where r: "written st' = framed recs'"
          "processedCount st' = length recs'"
          "\<forall>(h, q) \<in> set recs'. (\<exists>reqID ts. h = header reqID ts \<and> set reqID \<subseteq> set hextable)
            \<and> (\<exists>rl. q = rl @ [CR, LF, CR, LF, LF] \<and> LF \<notin> set rl)"
        unfolding init by auto
      from delimiter_lines_of_framed[OF r(3)] r(1,2) e show ?thesis by simp
    qed
    moreover have "processedCount st = n" "length recs = n" using e c(3) by simp_all
    ultimately show ?thesis
      by (intro conjI impI exI[of _ recs] exI[of _ "[]"]) simp_all
  next
    assume "\<exists>st' e0 k recs part. loop p rnd w ?ls initial = Return st' (Wrapf (writeErrors ! k) e0) \<and> k < 3
        \<and> written st' = written initial @ framed recs @ part \<and> length part = Suc k
        \<and> processedCount st' = processedCount initial + length recs"
    then obtain st' e0 k recs part where c: "loop p rnd w ?ls initial = Return st' (Wrapf (writeErrors ! k) e0)"
        "k < 3" "written st' = framed recs @ part" "length part = Suc k"
        "processedCount st' = length recs"
      unfolding init by auto
    from assms c(1) have e: "st = st'" "n = processedCount st'" "err = Some (Wrapf (writeErrors ! k) e0)"
      by (auto simp: processLogs_result)
    then have "processedCount st = n" "length recs = n" "written st = framed recs @ part"
      using c(3,5) by simp_all
    moreover have "part = [] \<or> (\<exists>k e0. k < 3 \<and> err = Some (Wrapf (writeErrors ! k) e0) \<and> length part = Suc k)"
      using e(3) c(2,4) by blast
    moreover have "err \<noteq> None" using e(3) by simp
    ultimately show ?thesis by blast
  qed
  have empty: "n = 0 \<and> written st = [] \<and> concat (written st) = []" if "content r = []"
    using assms Scan_empty[OF that] by (auto simp: processLogs_result initial_def)
  have step: "(\<exists>st'. loopBody p rnd w line st0 = Continue st' \<and> written st' = written st0
              \<and> processedCount st' = processedCount st0)
          \<or> (\<exists>st' reqID rl. loopBody p rnd w line st0 = Continue st'
              \<and> extractRequestLine line = Some rl
              \<and> written st' = written st0 @
                   [header reqID (extractTimestamp line), rl @ [CR, LF, CR, LF, LF], gorPayloadDelimiter @ [LF]]
              \<and> processedCount st' = Suc (processedCount st0))
          \<or> (\<exists>st' e0 k part. loopBody p rnd w line st0 = Return st' (Wrapf (writeErrors ! k) e0) \<and> k < 3
              \<and> written st' = written st0 @ part \<and> length part = Suc k
              \<and> processedCount st' = processedCount st0)" for line st0
    using loopBody_outcomes[of p rnd w line st0] unfolding framed_single .
  from main empty step show ?thesis by blast
qed

theorem count_is_number_of_records_witness:
  "processLogs \<lparr>content = exampleLine @ [LF], failure = None\<rparr> okWriter acceptAll countingRand =
     (1, None, \<lparr>processedCount = 1, randCalls = 1, written =
        [''1 000102030405060708090a0b 1759321811000000000 0'' @ [LF],
         ''GET /api/v1/users HTTP/1.1'' @ [CR, LF, CR, LF, LF],
         gorPayloadDelimiter @ [LF]]\<rparr>)
   \<and> length (filter (\<lambda>seg. seg = gorPayloadDelimiter @ [LF])
        [''1 000102030405060708090a0b 1759321811000000000 0'' @ [LF],
         ''GET /api/v1/users HTTP/1.1'' @ [CR, LF, CR, LF, LF],
         gorPayloadDelimiter @ [LF]]) = 1
   \<and> processLogs \<lparr>content = [], failure = None\<rparr> okWriter acceptAll countingRand = (0, None, initial)
   \<and> written initial = []"
proof -
  have e: "processLogs \<lparr>content = [], failure = None\<rparr> okWriter acceptAll countingRand = (0, None, initial)"
    by (simp add: processLogs_result Scan_def) (simp add: initial_def)
  from count_is_number_of_records[OF processLogs_example]
  have "None = (None :: error option) \<longrightarrow>
      length (filter (\<lambda>seg. seg = gorPayloadDelimiter @ [LF])
        (written \<lparr>processedCount = 1, randCalls = 1, written =
        [''1 000102030405060708090a0b 1759321811000000000 0'' @ [LF],
         ''GET /api/v1/users HTTP/1.1'' @ [CR, LF, CR, LF, LF],
         gorPayloadDelimiter @ [LF]]\<rparr>)) = 1"
    by blast
  then have a: "length (filter (\<lambda>seg. seg = gorPayloadDelimiter @ [LF])
        [''1 000102030405060708090a0b 1759321811000000000 0'' @ [LF],
         ''GET /api/v1/users HTTP/1.1'' @ [CR, LF, CR, LF, LF],
         gorPayloadDelimiter @ [LF]]) = 1"
    by (simp del: filter.simps)
  from count_is_number_of_records[OF e]
  have "content \<lparr>content = [], failure = None\<rparr> = [] \<longrightarrow> written initial = []"
    by blast
  then have b: "written initial = []" by simp
  from processLogs_example e a b show ?thesis by blast
qed

section \<open>Failures of the streams\<close>

lemma writeRecord_fails:
  assumes "segs = [header reqID ts, rl @ [CR, LF, CR, LF, LF], gorPayloadDelimiter @ [LF]]"
    and "k < 3" and "\<forall>j < k. w (written st @ take j segs) (segs ! j) = Written"
    and "w (written st @ take k segs) (segs ! k) = ShortWrite n e"
  shows "writeRecord w reqID ts rl st =
     Return (st\<lparr>written := written st @ take k segs @ [take n (segs ! k)]\<rparr>) (Wrapf (writeErrors ! k) e)"
proof -
  from assms(2) consider "k = 0" | "k = 1" | "k = 2" by linarith
  then show ?thesis
  proof cases
    case 1
    with assms(1,4) show ?thesis by (simp add: writeRecord_cases writeErrors_def)
  next
    case 2
    with assms(3) have "w (written st @ take 0 segs) (segs ! 0) = Written" by simp
    with 2 assms(1,4) show ?thesis by (simp add: writeRecord_cases writeErrors_def)
  next
    case 3
    with assms(3) have "0 < k \<longrightarrow> w (written st @ take 0 segs) (segs ! 0) = Written"
      "1 < k \<longrightarrow> w (written st @ take 1 segs) (segs ! 1) = Written" by blast+
    with 3 have "w (written st @ take 0 segs) (segs ! 0) = Written"
      "w (written st @ take 1 segs) (segs ! 1) = Written" by simp_all
    with 3 assms(1,4) show ?thesis
      by (simp add: writeRecord_cases writeErrors_def numeral_2_eq_2)
  qed
qed

text \<open>
  Claim C5. Let the loop have gone through the lines before \<open>line\<close> and reached the state
  \<open>st\<close>, and let \<open>line\<close> get as far as the writes. When write number \<open>k\<close> of the three
  fails, the writes before it having succeeded, \<open>processLogs\<close> returns at once: the lines
  that follow are not processed (the result is the same whatever they are), the count is
  the counter as it was before this line, which is the number of complete records
  written, and the error wraps the writer's error with the message that names the
  segment whose write failed.
\<close>

theorem write_failure_aborts:
  assumes "Scan r = (before @ line # ls, serr)" and "loop p rnd w before initial = Continue st"
    and "line \<noteq> []" and "\<not> malformed p line" and "extractRequestLine line = Some rl"
    and "rnd (randCalls st) = Inr g"
    and "segs = [header (EncodeToString (map g [0..<12])) (extractTimestamp line),
                 rl @ [CR, LF, CR, LF, LF], gorPayloadDelimiter @ [LF]]"
    and "k < 3" and "\<forall>j < k. w (written st @ take j segs) (segs ! j) = Written"
    and "w (written st @ take k segs) (segs ! k) = ShortWrite n e"
  shows "processLogs r w p rnd =
      (processedCount st,
       Some (Wrapf ([''failed to write header'', ''failed to write request line'',
                     ''failed to write delimiter''] ! k) e),
       st\<lparr>randCalls := Suc (randCalls st), written := written st @ take k segs @ [take n (segs ! k)]\<rparr>)
    \<and> loop p rnd w (before @ line # ls) initial = loop p rnd w (before @ [line]) initial
    \<and> (\<exists>recs. written st = framed recs \<and> length recs = processedCount st)"
proof -
  let ?st = "st\<lparr>randCalls := Suc (randCalls st)\<rparr>"
  let ?st' = "st\<lparr>randCalls := Suc (randCalls st), written := written st @ take k segs @ [take n (segs ! k)]\<rparr>"
  have "loopBody p rnd w line st =
      writeRecord w (EncodeToString (map g [0..<12])) (extractTimestamp line) rl ?st"
    using assms(3-6) by (simp add: loopBody_write)
  also have "\<dots> = Return ?st' (Wrapf (writeErrors ! k) e)"
    using writeRecord_fails[of segs _ _ rl k w ?st n e] assms(7-10) by simp
  finally have body: "loopBody p rnd w line st = Return ?st' (Wrapf (writeErrors ! k) e)" .
  have l: "loop p rnd w (before @ line # xs) initial = Return ?st' (Wrapf (writeErrors ! k) e)" for xs
    by (simp add: loop_append assms(2) body)
  have "processLogs r w p rnd = (processedCount st, Some (Wrapf (writeErrors ! k) e), ?st')"
    by (simp add: processLogs_result assms(1) l)
  moreover have "loop p rnd w (before @ line # ls) initial = loop p rnd w (before @ [line]) initial"
    by (simp only: l)
  moreover have "\<exists>recs. written st = framed recs \<and> length recs = processedCount st"
    using loop_records[of p rnd w before initial] assms(2) by (auto simp: initial_def)
  ultimately show ?thesis by (simp add: writeErrors_def)
qed

lemma scan_line:
  "LF \<notin> set l \<Longrightarrow> length cur + length l < MaxScanTokenSize \<Longrightarrow>
     scan (l @ LF # rest) cur = (case scan rest [] of (ls, e) \<Rightarrow> (dropCR (cur @ l) # ls, e))"
  by (induction l arbitrary: cur) auto

lemma exampleLine_plain:
  "LF \<notin> set exampleLine" "length exampleLine = 94" "dropCR exampleLine = exampleLine"
  by (simp_all add: exampleLine_def LF_def CR_def dropCR_def)

lemma Scan_two_examples:
  "Scan \<lparr>content = exampleLine @ [LF] @ exampleLine @ [LF], failure = f\<rparr>
     = ([exampleLine, exampleLine], f)"
proof -
  have "scan (exampleLine @ LF # []) [] = ([exampleLine], None)"
    by (subst scan_line) (simp_all add: exampleLine_plain MaxScanTokenSize_def)
  then have "scan (exampleLine @ LF # (exampleLine @ LF # [])) [] = ([exampleLine, exampleLine], None)"
    by (subst scan_line) (simp_all add: exampleLine_plain MaxScanTokenSize_def)
  then show ?thesis by (simp add: Scan_def)
qed

theorem write_failure_aborts_witness:
  "processLogs \<lparr>content = exampleLine @ [LF] @ exampleLine @ [LF], failure = None\<rparr>
       (failAt 4) acceptAll countingRand =
     (1, Some (Wrapf ''failed to write request line'' (Err ''no space left on device'')),
      \<lparr>processedCount = 1, randCalls = 2, written =
        [''1 000102030405060708090a0b 1759321811000000000 0'' @ [LF],
         ''GET /api/v1/users HTTP/1.1'' @ [CR, LF, CR, LF, LF],
         gorPayloadDelimiter @ [LF],
         header (EncodeToString (map (\<lambda>i. of_nat (16 + i)) [0..<12])) (extractTimestamp exampleLine),
         ''GET'']\<rparr>)"
proof -
  let ?st = "\<lparr>processedCount = 1, randCalls = 1, written =
        [''1 000102030405060708090a0b 1759321811000000000 0'' @ [LF],
         ''GET /api/v1/users HTTP/1.1'' @ [CR, LF, CR, LF, LF],
         gorPayloadDelimiter @ [LF]]\<rparr>"
  let ?segs = "[header (EncodeToString (map (\<lambda>i. of_nat (16 + i)) [0..<12])) (extractTimestamp exampleLine),
                 ''GET /api/v1/users HTTP/1.1'' @ [CR, LF, CR, LF, LF], gorPayloadDelimiter @ [LF]]"
  have 1: "Scan \<lparr>content = exampleLine @ [LF] @ exampleLine @ [LF], failure = None\<rparr>
      = ([exampleLine] @ exampleLine # [], None)"
    using Scan_two_examples[of None] by simp
  have 2: "loop acceptAll countingRand (failAt 4) [exampleLine] initial = Continue ?st"
    by (simp add: loopBody_example writeRecord_cases failAt_def initial_def id_0 header_example)
  have 3: "exampleLine \<noteq> []" by (simp add: exampleLine_def)
  have 4: "\<not> malformed acceptAll exampleLine" by (simp add: malformed_def acceptAll_def)
  have 6: "countingRand (randCalls ?st) = Inr (\<lambda>i. of_nat (16 + i))"
    by (simp add: countingRand_def)
  have 8: "(1::nat) < 3" by simp
  have 9: "\<forall>j < 1. failAt 4 (written ?st @ take j ?segs) (?segs ! j) = Written"
    by (simp add: failAt_def)
  have 10: "failAt 4 (written ?st @ take 1 ?segs) (?segs ! 1) = ShortWrite 3 (Err ''no space left on device'')"
    by (simp add: failAt_def)
  from write_failure_aborts[OF 1 2 3 4 extractRequestLine_example 6 refl 8 9 10]
  show ?thesis by simp
qed

lemma scan_error: "snd (scan s cur) = None \<or> snd (scan s cur) = Some ErrTooLong"
  by (induction s arbitrary: cur) (simp_all add: case_prod_unfold)

lemma Scan_error:
  "snd (Scan r) = (case snd (scan (content r) []) of Some e \<Rightarrow> Some e | None \<Rightarrow> failure r)"
  by (simp add: Scan_def split: prod.splits option.splits)

lemma id_1: "EncodeToString (map (\<lambda>i. 16 + of_nat i) [0..<12]) = ''101112131415161718191a1b''"
proof -
  have "[0..<12] = [0, 1, 2, 3, 4, 5, 6, 7, 8, 9, 10, 11 :: nat]"
    by (simp add: upt_conv_Cons)
  then show ?thesis
    by (simp add: EncodeToString_def hextable_def drop_bit_eq_div)
qed

lemma loop_two_examples:
  "loop acceptAll countingRand okWriter [exampleLine, exampleLine] initial =
     Continue \<lparr>processedCount = 2, randCalls = 2, written =
        [''1 000102030405060708090a0b 1759321811000000000 0'' @ [LF],
         ''GET /api/v1/users HTTP/1.1'' @ [CR, LF, CR, LF, LF],
         gorPayloadDelimiter @ [LF],
         ''1 101112131415161718191a1b 1759321811000000000 0'' @ [LF],
         ''GET /api/v1/users HTTP/1.1'' @ [CR, LF, CR, LF, LF],
         gorPayloadDelimiter @ [LF]]\<rparr>"
  by (simp add: loopBody_example writeRecord_cases okWriter_def initial_def id_0 id_1 header_example)

section \<open>Lines that are skipped, and the limit of the scanner\<close>

text \<open>
  What the scanner does with a line that reaches its limit, with the last line of an
  input that does not end in a line feed, and with an input that begins with complete
  lines.
\<close>

lemma scan_too_long:
  "LF \<notin> set l \<Longrightarrow> length cur < MaxScanTokenSize \<Longrightarrow> MaxScanTokenSize \<le> length cur + length l \<Longrightarrow>
     scan (l @ rest) cur = ([], Some ErrTooLong)"
proof (induction l arbitrary: cur)
  case Nil
  then show ?case by simp
next
  case (Cons x l)
  show ?case
  proof (cases "MaxScanTokenSize \<le> length (cur @ [x])")
    case True
    with Cons.prems show ?thesis by auto
  next
    case False
    with Cons.prems have "scan (l @ rest) (cur @ [x]) = ([], Some ErrTooLong)"
      by (intro Cons.IH) simp_all
    with False Cons.prems show ?thesis by auto
  qed
qed

lemma scan_last:
  "LF \<notin> set l \<Longrightarrow> length cur + length l < MaxScanTokenSize \<Longrightarrow>
     scan l cur = (if cur @ l = [] then [] else [dropCR (cur @ l)], None)"
  by (induction l arbitrary: cur) auto

lemma scan_complete_lines:
  "b \<noteq> [] \<Longrightarrow> last b = LF \<Longrightarrow>
     scan (b @ rest) cur =
       (case scan b cur of
          (ls, Some e) \<Rightarrow> (ls, Some e)
        | (ls, None) \<Rightarrow> (ls @ fst (scan rest []), snd (scan rest [])))"
proof (induction b arbitrary: cur)
  case Nil
  then show ?case by simp
next
  case (Cons x b)
  show ?case
  proof (cases "b = []")
    case True
    with Cons.prems show ?thesis by (simp add: case_prod_unfold)
  next
    case False
    with Cons.prems have l: "last b = LF" by simp
    note ih = Cons.IH[OF False l]
    show ?thesis
      by (simp add: ih case_prod_unfold split: option.splits)
  qed
qed

lemma no_quote_no_request_line: "DQ \<notin> set line \<Longrightarrow> \<not> hasQuotedRequestLine line"
  by (auto simp: hasQuotedRequestLine_def quoted_def)

lemma Scan_long_line:
  "Scan \<lparr>content = replicate 65536 CHR ''a'' @ rest, failure = f\<rparr> = ([], Some ErrTooLong)"
proof -
  have "scan (replicate 65536 CHR ''a'' @ rest) [] = ([], Some ErrTooLong)"
    by (rule scan_too_long) (simp_all add: LF_def MaxScanTokenSize_def)
  then show ?thesis by (simp add: Scan_def)
qed

lemma line_removed:
  assumes "before = [] \<or> last before = LF"
    and "LF \<notin> set l" and "length l < MaxScanTokenSize"
    and "after = [] \<or> hd after = LF"
  shows "\<exists>ls0 ls1 e. Scan \<lparr>content = before @ drop 1 after, failure = f\<rparr> = (ls0 @ ls1, e)
     \<and> (Scan \<lparr>content = before @ l @ after, failure = f\<rparr> = (ls0 @ ls1, e)
        \<or> Scan \<lparr>content = before @ l @ after, failure = f\<rparr> = (ls0 @ dropCR l # ls1, e))"
proof -
  have a: "scan (l @ after) [] = scan (drop 1 after) []
      \<or> scan (l @ after) [] = (dropCR l # fst (scan (drop 1 after) []), snd (scan (drop 1 after) []))"
  proof (cases after)
    case Nil
    then show ?thesis using scan_last[of l "[]"] assms(2,3) by simp
  next
    case (Cons x rest)
    with assms(4) have "after = LF # rest" by simp
    then show ?thesis using scan_line[of l "[]" rest] assms(2,3) by (simp add: case_prod_unfold)
  qed
  show ?thesis
  proof (cases "before = []")
    case True
    from a show ?thesis
    proof
      assume "scan (l @ after) [] = scan (drop 1 after) []"
      then have "Scan \<lparr>content = before @ l @ after, failure = f\<rparr>
          = Scan \<lparr>content = before @ drop 1 after, failure = f\<rparr>"
        using True by (simp add: Scan_def split: prod.splits option.splits)
      then show ?thesis
        by (metis append_Nil surj_pair)
    next
      assume "scan (l @ after) [] = (dropCR l # fst (scan (drop 1 after) []), snd (scan (drop 1 after) []))"
      then have "Scan \<lparr>content = before @ l @ after, failure = f\<rparr>
          = ([] @ dropCR l # fst (Scan \<lparr>content = before @ drop 1 after, failure = f\<rparr>),
             snd (Scan \<lparr>content = before @ drop 1 after, failure = f\<rparr>))"
        using True by (simp add: Scan_def case_prod_unfold split: option.splits)
      moreover have "Scan \<lparr>content = before @ drop 1 after, failure = f\<rparr>
          = ([] @ fst (Scan \<lparr>content = before @ drop 1 after, failure = f\<rparr>),
             snd (Scan \<lparr>content = before @ drop 1 after, failure = f\<rparr>))"
        by simp
      ultimately show ?thesis by blast
    qed
  next
    case False
    with assms(1) have lb: "last before = LF" by simp
    obtain ls0 e0 where s0: "scan before [] = (ls0, e0)" by (cases "scan before []")
    show ?thesis
    proof (cases e0)
      case (Some e)
      have "Scan \<lparr>content = before @ l @ after, failure = f\<rparr> = (ls0 @ [], Some e)"
        "Scan \<lparr>content = before @ drop 1 after, failure = f\<rparr> = (ls0 @ [], Some e)"
        using s0 Some by (simp_all add: Scan_def scan_complete_lines[OF False lb])
      then show ?thesis by blast
    next
      case None
      obtain ls1 e1 where s1: "scan (drop 1 after) [] = (ls1, e1)" by (cases "scan (drop 1 after) []")
      let ?e = "case e1 of Some e \<Rightarrow> Some e | None \<Rightarrow> f"
      have 2: "Scan \<lparr>content = before @ drop 1 after, failure = f\<rparr> = (ls0 @ ls1, ?e)"
        using s0 None s1 by (simp add: Scan_def scan_complete_lines[OF False lb] split: option.splits)
      from a show ?thesis
      proof
        assume "scan (l @ after) [] = scan (drop 1 after) []"
        then have "Scan \<lparr>content = before @ l @ after, failure = f\<rparr> = (ls0 @ ls1, ?e)"
          using s0 None s1 by (simp add: Scan_def scan_complete_lines[OF False lb] split: option.splits)
        with 2 show ?thesis by blast
      next
        assume "scan (l @ after) [] = (dropCR l # fst (scan (drop 1 after) []), snd (scan (drop 1 after) []))"
        then have "Scan \<lparr>content = before @ l @ after, failure = f\<rparr> = (ls0 @ dropCR l # ls1, ?e)"
          using s0 None s1 by (simp add: Scan_def scan_complete_lines[OF False lb] split: option.splits)
        with 2 show ?thesis by blast
      qed
    qed
  qed
qed

text \<open>
  Claim C4 says of every input line that is empty or has no quoted request line that no
  record is written for it, that the counter keeps its value, and that no error is
  returned for it: processing continues. The scanner of line 67 has its default limit. A
  line of 65536 bytes is not delivered to the loop: the scanner stops with
  \<^verbatim>\<open>ErrTooLong\<close>, the loop ends, and lines 128 to 130 return that error. The input
  below has a line of 65536 letters, which has no request line, and after it the example
  line, which alone gives one record: \<open>processLogs\<close> returns the error with the count 0
  and has written nothing.
\<close>

theorem long_line_stops_conversion:
  "\<not> hasQuotedRequestLine (replicate 65536 CHR ''a'')
   \<and> processLogs \<lparr>content = replicate 65536 CHR ''a'' @ [LF] @ exampleLine @ [LF], failure = None\<rparr>
        okWriter acceptAll countingRand
      = (0, Some (Wrapf ''error reading input file'' (Err ''bufio.Scanner: token too long'')),
         \<lparr>processedCount = 0, randCalls = 0, written = []\<rparr>)
   \<and> fst (processLogs \<lparr>content = exampleLine @ [LF], failure = None\<rparr> okWriter acceptAll countingRand) = 1"
proof -
  have "\<not> hasQuotedRequestLine (replicate 65536 CHR ''a'')"
    by (rule no_quote_no_request_line) (simp add: DQ_def)
  moreover have "processLogs \<lparr>content = replicate 65536 CHR ''a'' @ [LF] @ exampleLine @ [LF], failure = None\<rparr>
        okWriter acceptAll countingRand
      = (0, Some (Wrapf ''error reading input file'' (Err ''bufio.Scanner: token too long'')),
         \<lparr>processedCount = 0, randCalls = 0, written = []\<rparr>)"
    by (simp only: processLogs_result Scan_long_line) (simp add: initial_def ErrTooLong_def)
  ultimately show ?thesis by (simp add: processLogs_example)
qed

text \<open>
  Claim C4, amended to the lines shorter than 65536 bytes. Let \<open>l\<close> be a line of the
  input, the bytes between two line feeds or between a line feed and an end of the
  input, shorter than 65536 bytes, and let its text, which is \<open>l\<close> less a carriage return
  at its end, be empty or have no quoted request line whose method is of the fixed set.
  Then the result of \<open>processLogs\<close>, the count, the error and all that was written, is
  what it is for the input without that line: no record is written for the line, the
  counter keeps its value, no error is returned for it, and the lines that follow are
  processed as they would be without it. In the loop, the iteration for the line leaves
  the state as it was.
\<close>

theorem line_without_request_line_skipped:
  assumes "before = [] \<or> last before = LF"
    and "LF \<notin> set l" and "length l < MaxScanTokenSize"
    and "after = [] \<or> hd after = LF"
    and "dropCR l = [] \<or> \<not> hasQuotedRequestLine (dropCR l)"
  shows "processLogs \<lparr>content = before @ l @ after, failure = f\<rparr> w p rnd
           = processLogs \<lparr>content = before @ drop 1 after, failure = f\<rparr> w p rnd
       \<and> loopBody p rnd w (dropCR l) st = Continue st
       \<and> loop p rnd w (dropCR l # ls) st = loop p rnd w ls st"
proof -
  have b: "loopBody p rnd w (dropCR l) s = Continue s" for s
    using assms(5) by (auto simp: loopBody_def extractRequestLine_None[symmetric])
  from line_removed[OF assms(1-4), of f] obtain ls0 ls1 e where
    2: "Scan \<lparr>content = before @ drop 1 after, failure = f\<rparr> = (ls0 @ ls1, e)"
    and 1: "Scan \<lparr>content = before @ l @ after, failure = f\<rparr> = (ls0 @ ls1, e)
        \<or> Scan \<lparr>content = before @ l @ after, failure = f\<rparr> = (ls0 @ dropCR l # ls1, e)"
    by blast
  have c: "loop p rnd w (ls0 @ dropCR l # ls1) initial = loop p rnd w (ls0 @ ls1) initial"
    by (simp add: loop_append b split: outcome.splits)
  have "processLogs \<lparr>content = before @ l @ after, failure = f\<rparr> w p rnd
           = processLogs \<lparr>content = before @ drop 1 after, failure = f\<rparr> w p rnd"
    using 1
  proof
    assume "Scan \<lparr>content = before @ l @ after, failure = f\<rparr> = (ls0 @ ls1, e)"
    then show ?thesis by (simp only: processLogs_result 2)
  next
    assume "Scan \<lparr>content = before @ l @ after, failure = f\<rparr> = (ls0 @ dropCR l # ls1, e)"
    then show ?thesis by (simp only: processLogs_result 2 fst_conv snd_conv c)
  qed
  with b show ?thesis by simp
qed

theorem line_without_request_line_skipped_witness:
  \<open>\<not> hasQuotedRequestLine ''10.0.0.7 - - [01/Oct/2025:12:30:11 +0000] "FETCH /x HTTP/1.1" 200 5''
   \<and> processLogs \<lparr>content = ''10.0.0.7 - - [01/Oct/2025:12:30:11 +0000] "FETCH /x HTTP/1.1" 200 5''
                              @ [CR, LF] @ [LF] @ exampleLine @ [LF], failure = None\<rparr>
        okWriter acceptAll countingRand
      = (1, None, \<lparr>processedCount = 1, randCalls = 1, written =
        [''1 000102030405060708090a0b 1759321811000000000 0'' @ [LF],
         ''GET /api/v1/users HTTP/1.1'' @ [CR, LF, CR, LF, LF],
         gorPayloadDelimiter @ [LF]]\<rparr>)
   \<and> loopBody acceptAll countingRand okWriter
        ''10.0.0.7 - - [01/Oct/2025:12:30:11 +0000] "FETCH /x HTTP/1.1" 200 5'' initial = Continue initial
   \<and> loop acceptAll countingRand okWriter
        [''10.0.0.7 - - [01/Oct/2025:12:30:11 +0000] "FETCH /x HTTP/1.1" 200 5'', exampleLine] initial
       = loop acceptAll countingRand okWriter [exampleLine] initial
   \<and> loopBody acceptAll countingRand okWriter [] initial = Continue initial\<close>
proof -
  let ?l = \<open>''10.0.0.7 - - [01/Oct/2025:12:30:11 +0000] "FETCH /x HTTP/1.1" 200 5''\<close>
  have \<open>length (FindStringSubmatch re ?l) \<noteq> 4\<close>
    by (simp add: FindStringSubmatch_def re_def DQ_def ms.simps(5))
  then have h: \<open>\<not> hasQuotedRequestLine ?l\<close>
    unfolding hasQuotedRequestLine_iff .
  have d: "dropCR (?l @ [CR]) = ?l" by (simp add: dropCR_def)
  have 1: "([]::string) = [] \<or> last ([]::string) = LF" by simp
  have 2: "LF \<notin> set (?l @ [CR])" by (simp add: LF_def CR_def)
  have 3: "length (?l @ [CR]) < MaxScanTokenSize" by (simp add: MaxScanTokenSize_def)
  have 4: "LF # LF # exampleLine @ [LF] = [] \<or> hd (LF # LF # exampleLine @ [LF]) = LF" by simp
  have 5: "dropCR (?l @ [CR]) = [] \<or> \<not> hasQuotedRequestLine (dropCR (?l @ [CR]))"
    unfolding d using h by (rule disjI2)
  have 6: "([]::string) = [] \<or> hd ([]::string) = LF" by simp
  have 7: "LF \<notin> set []" by simp
  have 8: "length ([]::string) < MaxScanTokenSize" by (simp add: MaxScanTokenSize_def)
  have 9: "LF # exampleLine @ [LF] = [] \<or> hd (LF # exampleLine @ [LF]) = LF" by simp
  have 10: "dropCR [] = [] \<or> \<not> hasQuotedRequestLine (dropCR [])" by (simp add: dropCR_def)
  from line_without_request_line_skipped[OF 1 2 3 4 5, of None okWriter acceptAll countingRand initial "[exampleLine]"]
    line_without_request_line_skipped[OF 1 7 8 9 10, of None okWriter acceptAll countingRand initial "[]"]
    h
  show ?thesis
    unfolding d by (simp add: processLogs_example dropCR_def)
qed

text \<open>
  The lines of the input and the lines the scanner delivers. The scanner reports no error
  of its own exactly when every line of the input is shorter than 65536 bytes, and then
  it delivers every line, less a carriage return at its end. An error the loop returns
  is the error of a call of the writer.
\<close>

lemma splitLines_first:
  "cur \<noteq> [] \<Longrightarrow> \<exists>l \<in> set (splitLines s cur). length cur \<le> length l"
proof (induction s arbitrary: cur)
  case Nil
  then show ?case by simp
next
  case (Cons x s)
  show ?case
  proof (cases "x = LF")
    case True
    then show ?thesis by simp
  next
    case False
    have "\<exists>l \<in> set (splitLines s (cur @ [x])). length (cur @ [x]) \<le> length l"
      by (rule Cons.IH) simp
    then obtain l where "l \<in> set (splitLines s (cur @ [x]))" "Suc (length cur) \<le> length l"
      by auto
    then have "l \<in> set (splitLines s (cur @ [x])) \<and> length cur \<le> length l" by simp
    with False show ?thesis by auto
  qed
qed

lemma splitLines_last:
  "LF \<notin> set l \<Longrightarrow> splitLines l cur = (if cur @ l = [] then [] else [cur @ l])"
  by (induction l arbitrary: cur) auto

lemma scan_fits:
  "length cur < MaxScanTokenSize \<Longrightarrow>
     (snd (scan s cur) = None) = (\<forall>l \<in> set (splitLines s cur). length l < MaxScanTokenSize)"
proof (induction s arbitrary: cur)
  case Nil
  then show ?case by simp
next
  case (Cons x s)
  show ?case
  proof (cases "x = LF")
    case True
    have "(snd (scan s []) = None) = (\<forall>l \<in> set (splitLines s []). length l < MaxScanTokenSize)"
      by (rule Cons.IH) (simp add: MaxScanTokenSize_def)
    with True Cons.prems show ?thesis by (simp add: case_prod_unfold)
  next
    case False
    show ?thesis
    proof (cases "MaxScanTokenSize \<le> length (cur @ [x])")
      case True
      from splitLines_first[of "cur @ [x]" s] obtain l where
        "l \<in> set (splitLines s (cur @ [x]))" "length (cur @ [x]) \<le> length l" by auto
      with True have "\<not> (\<forall>l \<in> set (splitLines s (cur @ [x])). length l < MaxScanTokenSize)"
        by (meson leD le_trans)
      with True False show ?thesis by simp
    next
      case long: False
      then have "(snd (scan s (cur @ [x])) = None)
          = (\<forall>l \<in> set (splitLines s (cur @ [x])). length l < MaxScanTokenSize)"
        by (intro Cons.IH) simp
      with long False show ?thesis by simp
    qed
  qed
qed

lemma scan_lines:
  "snd (scan s cur) = None \<Longrightarrow> fst (scan s cur) = map dropCR (splitLines s cur)"
  by (induction s arbitrary: cur) (auto simp: case_prod_unfold split: if_splits)

lemma Scan_fits:
  assumes "\<forall>l \<in> set (splitLines (content r) []). length l < MaxScanTokenSize"
  shows "Scan r = (map dropCR (splitLines (content r) []), failure r)"
proof -
  have "snd (scan (content r) []) = None"
    using assms scan_fits[of "[]" "content r"] by (simp add: MaxScanTokenSize_def)
  then show ?thesis
    using scan_lines[of "content r" "[]"] by (simp add: Scan_def case_prod_unfold)
qed

lemma Scan_too_long:
  assumes "\<not> (\<forall>l \<in> set (splitLines (content r) []). length l < MaxScanTokenSize)"
  shows "snd (Scan r) = Some ErrTooLong"
proof -
  have "snd (scan (content r) []) \<noteq> None"
    using assms scan_fits[of "[]" "content r"] by (simp add: MaxScanTokenSize_def)
  then show ?thesis
    using scan_error[of "content r" "[]"] by (auto simp: Scan_error)
qed

lemma loopBody_Return:
  assumes "loopBody p rnd w line st = Return st' e"
  shows "\<exists>k e0 h d n. k < 3 \<and> e = Wrapf (writeErrors ! k) e0 \<and> w h d = ShortWrite n e0"
proof -
  from assms obtain reqID ts rl s where r: "writeRecord w reqID ts rl s = Return st' e"
    by (auto simp: loopBody_def Let_def split: if_splits option.splits sum.splits)
  let ?h = "header reqID ts" and ?q = "rl @ [CR, LF, CR, LF, LF]" and ?d = "gorPayloadDelimiter @ [LF]"
  show ?thesis
  proof (cases "w (written s) ?h")
    case (ShortWrite n e0)
    with r have "e = Wrapf (writeErrors ! 0) e0" by (simp add: writeRecord_cases writeErrors_def)
    with ShortWrite show ?thesis by (intro exI[of _ 0]) auto
  next
    case w0: Written
    show ?thesis
    proof (cases "w (written s @ [?h]) ?q")
      case (ShortWrite n e0)
      with r w0 have "e = Wrapf (writeErrors ! 1) e0" by (simp add: writeRecord_cases writeErrors_def)
      with ShortWrite show ?thesis by (intro exI[of _ 1]) auto
    next
      case w1: Written
      show ?thesis
      proof (cases "w (written s @ [?h, ?q]) ?d")
        case (ShortWrite n e0)
        with r w0 w1 have "e = Wrapf (writeErrors ! 2) e0" by (simp add: writeRecord_cases writeErrors_def)
        with ShortWrite show ?thesis by (intro exI[of _ 2]) auto
      next
        case Written
        with r w0 w1 show ?thesis by (simp add: writeRecord_cases)
      qed
    qed
  qed
qed

lemma loop_Return:
  "loop p rnd w ls st = Return st' e \<Longrightarrow>
     \<exists>k e0 h d n. k < 3 \<and> e = Wrapf (writeErrors ! k) e0 \<and> w h d = ShortWrite n e0"
proof (induction ls arbitrary: st)
  case Nil
  then show ?case by simp
next
  case (Cons line ls)
  show ?case
  proof (cases "loopBody p rnd w line st")
    case (Continue s)
    with Cons.prems have "loop p rnd w ls s = Return st' e" by simp
    then show ?thesis by (rule Cons.IH)
  next
    case (Return s e')
    with Cons.prems have "loopBody p rnd w line st = Return st' e" by simp
    then show ?thesis by (rule loopBody_Return)
  qed
qed


lemma Scan_example_then_long:
  "Scan \<lparr>content = exampleLine @ [LF] @ replicate 65536 CHR ''a'', failure = f\<rparr>
     = ([exampleLine], Some ErrTooLong)"
proof -
  have "scan (replicate 65536 CHR ''a'' @ []) [] = ([], Some ErrTooLong)"
    by (rule scan_too_long) (simp_all add: LF_def MaxScanTokenSize_def)
  then have "scan (exampleLine @ LF # replicate 65536 CHR ''a'') [] = ([exampleLine], Some ErrTooLong)"
    by (subst scan_line) (simp_all add: exampleLine_plain MaxScanTokenSize_def)
  then show ?thesis by (simp add: Scan_def)
qed

lemma splitLines_two_examples:
  "splitLines (exampleLine @ [LF] @ exampleLine @ [LF]) [] = [exampleLine, exampleLine]"
  by (simp add: splitLines_line exampleLine_plain)

lemma splitLines_example_then_long:
  "splitLines (exampleLine @ [LF] @ replicate 65536 CHR ''a'') [] = [exampleLine, replicate 65536 CHR ''a'']"
proof -
  have "splitLines (replicate 65536 CHR ''a'') [] = [replicate 65536 CHR ''a'']"
    by (subst splitLines_last) (simp_all add: LF_def)
  then show ?thesis by (simp add: splitLines_line exampleLine_plain)
qed

text \<open>
  Claim C6 says that \<open>processLogs\<close> returns an error after the loop when reading the
  input reported an I/O error, returns no error when the input was exhausted cleanly,
  and that a malformed line never produces a returned error. The input below is read to
  its end with no read error, and the writer takes everything; its one line has 65536
  bytes. The scanner reports \<^verbatim>\<open>ErrTooLong\<close> and lines 128 to 130 return it.
\<close>

theorem long_line_returns_error:
  "failure \<lparr>content = replicate 65536 CHR ''a'', failure = None\<rparr> = None
   \<and> okWriter [] (replicate 65536 CHR ''a'') = Written
   \<and> processLogs \<lparr>content = replicate 65536 CHR ''a'', failure = None\<rparr> okWriter acceptAll countingRand
      = (0, Some (Wrapf ''error reading input file'' (Err ''bufio.Scanner: token too long'')),
         \<lparr>processedCount = 0, randCalls = 0, written = []\<rparr>)"
proof -
  have "Scan \<lparr>content = replicate 65536 CHR ''a'', failure = None\<rparr> = ([], Some ErrTooLong)"
    using Scan_long_line[of "[]" None] by simp
  then have "processLogs \<lparr>content = replicate 65536 CHR ''a'', failure = None\<rparr> okWriter acceptAll countingRand
      = (0, Some (Wrapf ''error reading input file'' (Err ''bufio.Scanner: token too long'')),
         \<lparr>processedCount = 0, randCalls = 0, written = []\<rparr>)"
    by (simp only: processLogs_result) (simp add: initial_def ErrTooLong_def)
  then show ?thesis by (simp add: okWriter_def)
qed

text \<open>
  Claim C6, amended by the limit of the scanner. When the loop has gone through all the
  lines the scanner delivered: if every line of the input is shorter than 65536 bytes
  and reading reported an error, the result is the counter with that error wrapped as
  \<^verbatim>\<open>error reading input file\<close>; if a line of the input has 65536 bytes or more, the
  result is the counter with \<^verbatim>\<open>ErrTooLong\<close> wrapped in the same way; if every line is
  shorter than 65536 bytes and reading reported no error, the result is the counter and
  no error. When every line is shorter than 65536 bytes, the scanner delivers each of
  them. No line shorter than 65536 bytes makes \<open>processLogs\<close> return an error: with a
  writer that does not fail the loop goes through all the lines delivered, whatever they
  hold and whatever the parser and the random source do, and every error returned is
  the error of a call of the writer that failed, or the read error of an input whose
  lines are all shorter than 65536 bytes, or \<^verbatim>\<open>ErrTooLong\<close> for an input with a line of
  65536 bytes or more.
\<close>

theorem read_error_returned_after_loop:
  "(\<forall>st e. loop p rnd w (fst (Scan r)) initial = Continue st
        \<and> (\<forall>l \<in> set (splitLines (content r) []). length l < MaxScanTokenSize)
        \<and> failure r = Some e \<longrightarrow>
      processLogs r w p rnd = (processedCount st, Some (Wrapf ''error reading input file'' e), st))
   \<and> (\<forall>st. loop p rnd w (fst (Scan r)) initial = Continue st
        \<and> \<not> (\<forall>l \<in> set (splitLines (content r) []). length l < MaxScanTokenSize) \<longrightarrow>
      processLogs r w p rnd
        = (processedCount st, Some (Wrapf ''error reading input file'' ErrTooLong), st))
   \<and> (\<forall>st. loop p rnd w (fst (Scan r)) initial = Continue st
        \<and> (\<forall>l \<in> set (splitLines (content r) []). length l < MaxScanTokenSize)
        \<and> failure r = None \<longrightarrow>
      processLogs r w p rnd = (processedCount st, None, st))
   \<and> ((\<forall>l \<in> set (splitLines (content r) []). length l < MaxScanTokenSize) \<longrightarrow>
        fst (Scan r) = map dropCR (splitLines (content r) []))
   \<and> ((\<forall>h d. w h d = Written) \<longrightarrow> (\<exists>st. loop p rnd w (fst (Scan r)) initial = Continue st))
   \<and> (\<forall>n e st. processLogs r w p rnd = (n, Some e, st) \<longrightarrow>
        (\<exists>k e0 h d m. k < 3 \<and> e = Wrapf (writeErrors ! k) e0 \<and> w h d = ShortWrite m e0)
        \<or> (\<exists>e0. failure r = Some e0 \<and> e = Wrapf ''error reading input file'' e0
              \<and> (\<forall>l \<in> set (splitLines (content r) []). length l < MaxScanTokenSize))
        \<or> (e = Wrapf ''error reading input file'' ErrTooLong
              \<and> \<not> (\<forall>l \<in> set (splitLines (content r) []). length l < MaxScanTokenSize)))"
proof (intro conjI allI impI)
  fix st e
  assume "loop p rnd w (fst (Scan r)) initial = Continue st
        \<and> (\<forall>l \<in> set (splitLines (content r) []). length l < MaxScanTokenSize)
        \<and> failure r = Some e"
  then have "loop p rnd w (fst (Scan r)) initial = Continue st" "snd (Scan r) = Some e"
    using Scan_fits[of r] by simp_all
  then show "processLogs r w p rnd = (processedCount st, Some (Wrapf ''error reading input file'' e), st)"
    by (simp add: processLogs_result)
next
  fix st
  assume "loop p rnd w (fst (Scan r)) initial = Continue st
        \<and> \<not> (\<forall>l \<in> set (splitLines (content r) []). length l < MaxScanTokenSize)"
  then have "loop p rnd w (fst (Scan r)) initial = Continue st" "snd (Scan r) = Some ErrTooLong"
    using Scan_too_long[of r] by simp_all
  then show "processLogs r w p rnd
        = (processedCount st, Some (Wrapf ''error reading input file'' ErrTooLong), st)"
    by (simp add: processLogs_result)
next
  fix st
  assume "loop p rnd w (fst (Scan r)) initial = Continue st
        \<and> (\<forall>l \<in> set (splitLines (content r) []). length l < MaxScanTokenSize)
        \<and> failure r = None"
  then have "loop p rnd w (fst (Scan r)) initial = Continue st" "snd (Scan r) = None"
    using Scan_fits[of r] by simp_all
  then show "processLogs r w p rnd = (processedCount st, None, st)"
    by (simp add: processLogs_result)
next
  assume "\<forall>l \<in> set (splitLines (content r) []). length l < MaxScanTokenSize"
  then show "fst (Scan r) = map dropCR (splitLines (content r) [])"
    by (simp add: Scan_fits)
next
  assume "\<forall>h d. w h d = Written"
  then show "\<exists>st. loop p rnd w (fst (Scan r)) initial = Continue st"
    by (rule loop_never_returns)
next
  fix n e st assume a: "processLogs r w p rnd = (n, Some e, st)"
  let ?fits = "\<forall>l \<in> set (splitLines (content r) []). length l < MaxScanTokenSize"
  show "(\<exists>k e0 h d m. k < 3 \<and> e = Wrapf (writeErrors ! k) e0 \<and> w h d = ShortWrite m e0)
        \<or> (\<exists>e0. failure r = Some e0 \<and> e = Wrapf ''error reading input file'' e0 \<and> ?fits)
        \<or> (e = Wrapf ''error reading input file'' ErrTooLong \<and> \<not> ?fits)"
  proof (cases "loop p rnd w (fst (Scan r)) initial")
    case (Return st' e')
    with a have "e' = e" by (simp add: processLogs_result)
    with Return have "loop p rnd w (fst (Scan r)) initial = Return st' e" by simp
    then have "\<exists>k e0 h d m. k < 3 \<and> e = Wrapf (writeErrors ! k) e0 \<and> w h d = ShortWrite m e0"
      by (rule loop_Return)
    then show ?thesis by (rule disjI1)
  next
    case (Continue st')
    with a have e: "map_option (Wrapf ''error reading input file'') (snd (Scan r)) = Some e"
      by (simp add: processLogs_result)
    show ?thesis
    proof (cases ?fits)
      case True
      then have "snd (Scan r) = failure r" by (simp add: Scan_fits)
      with e True have "\<exists>e0. failure r = Some e0 \<and> e = Wrapf ''error reading input file'' e0 \<and> ?fits"
        by auto
      then show ?thesis by blast
    next
      case False
      then have "snd (Scan r) = Some ErrTooLong" by (rule Scan_too_long)
      with e False have "e = Wrapf ''error reading input file'' ErrTooLong \<and> \<not> ?fits" by auto
      then show ?thesis by blast
    qed
  qed
qed

theorem read_error_returned_after_loop_witness:
  "processLogs \<lparr>content = exampleLine @ [LF] @ exampleLine @ [LF],
                failure = Some (Err ''read /var/log/access.log: input/output error'')\<rparr>
       okWriter acceptAll countingRand =
     (2, Some (Wrapf ''error reading input file'' (Err ''read /var/log/access.log: input/output error'')),
      \<lparr>processedCount = 2, randCalls = 2, written =
        [''1 000102030405060708090a0b 1759321811000000000 0'' @ [LF],
         ''GET /api/v1/users HTTP/1.1'' @ [CR, LF, CR, LF, LF],
         gorPayloadDelimiter @ [LF],
         ''1 101112131415161718191a1b 1759321811000000000 0'' @ [LF],
         ''GET /api/v1/users HTTP/1.1'' @ [CR, LF, CR, LF, LF],
         gorPayloadDelimiter @ [LF]]\<rparr>)
   \<and> processLogs \<lparr>content = exampleLine @ [LF] @ exampleLine @ [LF], failure = None\<rparr>
       okWriter acceptAll countingRand =
     (2, None,
      \<lparr>processedCount = 2, randCalls = 2, written =
        [''1 000102030405060708090a0b 1759321811000000000 0'' @ [LF],
         ''GET /api/v1/users HTTP/1.1'' @ [CR, LF, CR, LF, LF],
         gorPayloadDelimiter @ [LF],
         ''1 101112131415161718191a1b 1759321811000000000 0'' @ [LF],
         ''GET /api/v1/users HTTP/1.1'' @ [CR, LF, CR, LF, LF],
         gorPayloadDelimiter @ [LF]]\<rparr>)
   \<and> processLogs \<lparr>content = exampleLine @ [LF] @ replicate 65536 CHR ''a'',
                   failure = Some (Err ''read /var/log/access.log: input/output error'')\<rparr>
       okWriter acceptAll countingRand =
     (1, Some (Wrapf ''error reading input file'' (Err ''bufio.Scanner: token too long'')),
      \<lparr>processedCount = 1, randCalls = 1, written =
        [''1 000102030405060708090a0b 1759321811000000000 0'' @ [LF],
         ''GET /api/v1/users HTTP/1.1'' @ [CR, LF, CR, LF, LF],
         gorPayloadDelimiter @ [LF]]\<rparr>)"
proof -
  let ?e = "Err ''read /var/log/access.log: input/output error''"
  let ?r1 = "\<lparr>content = exampleLine @ [LF] @ exampleLine @ [LF], failure = Some ?e\<rparr>"
  let ?r2 = "\<lparr>content = exampleLine @ [LF] @ exampleLine @ [LF], failure = None\<rparr>"
  let ?r3 = "\<lparr>content = exampleLine @ [LF] @ replicate 65536 CHR ''a'', failure = Some ?e\<rparr>"
  have s1: "fst (Scan ?r1) = [exampleLine, exampleLine]"
    using Scan_two_examples[of "Some ?e"] by simp
  have s2: "fst (Scan ?r2) = [exampleLine, exampleLine]"
    using Scan_two_examples[of None] by simp
  have s3: "fst (Scan ?r3) = [exampleLine]"
    using Scan_example_then_long[of "Some ?e"] by simp
  have f1: "\<forall>l \<in> set (splitLines (content ?r1) []). length l < MaxScanTokenSize"
    using splitLines_two_examples by (simp add: exampleLine_plain MaxScanTokenSize_def)
  have f2: "\<forall>l \<in> set (splitLines (content ?r2) []). length l < MaxScanTokenSize"
    using splitLines_two_examples by (simp add: exampleLine_plain MaxScanTokenSize_def)
  have f3: "\<not> (\<forall>l \<in> set (splitLines (content ?r3) []). length l < MaxScanTokenSize)"
    using splitLines_example_then_long by (simp add: MaxScanTokenSize_def)
  have l3: "loop acceptAll countingRand okWriter [exampleLine] initial =
     Continue \<lparr>processedCount = 1, randCalls = 1, written =
        [''1 000102030405060708090a0b 1759321811000000000 0'' @ [LF],
         ''GET /api/v1/users HTTP/1.1'' @ [CR, LF, CR, LF, LF],
         gorPayloadDelimiter @ [LF]]\<rparr>"
    by (simp add: loopBody_example writeRecord_cases okWriter_def initial_def id_0 header_example)
  have 1: "processLogs ?r1 okWriter acceptAll countingRand =
     (2, Some (Wrapf ''error reading input file'' ?e),
      \<lparr>processedCount = 2, randCalls = 2, written =
        [''1 000102030405060708090a0b 1759321811000000000 0'' @ [LF],
         ''GET /api/v1/users HTTP/1.1'' @ [CR, LF, CR, LF, LF],
         gorPayloadDelimiter @ [LF],
         ''1 101112131415161718191a1b 1759321811000000000 0'' @ [LF],
         ''GET /api/v1/users HTTP/1.1'' @ [CR, LF, CR, LF, LF],
         gorPayloadDelimiter @ [LF]]\<rparr>)"
    using read_error_returned_after_loop[of acceptAll countingRand okWriter ?r1] f1
    unfolding s1 loop_two_examples by simp
  have 2: "processLogs ?r2 okWriter acceptAll countingRand =
     (2, None,
      \<lparr>processedCount = 2, randCalls = 2, written =
        [''1 000102030405060708090a0b 1759321811000000000 0'' @ [LF],
         ''GET /api/v1/users HTTP/1.1'' @ [CR, LF, CR, LF, LF],
         gorPayloadDelimiter @ [LF],
         ''1 101112131415161718191a1b 1759321811000000000 0'' @ [LF],
         ''GET /api/v1/users HTTP/1.1'' @ [CR, LF, CR, LF, LF],
         gorPayloadDelimiter @ [LF]]\<rparr>)"
    using read_error_returned_after_loop[of acceptAll countingRand okWriter ?r2] f2
    unfolding s2 loop_two_examples by simp
  have 3: "processLogs ?r3 okWriter acceptAll countingRand =
     (1, Some (Wrapf ''error reading input file'' (Err ''bufio.Scanner: token too long'')),
      \<lparr>processedCount = 1, randCalls = 1, written =
        [''1 000102030405060708090a0b 1759321811000000000 0'' @ [LF],
         ''GET /api/v1/users HTTP/1.1'' @ [CR, LF, CR, LF, LF],
         gorPayloadDelimiter @ [LF]]\<rparr>)"
    using read_error_returned_after_loop[of acceptAll countingRand okWriter ?r3] f3
    unfolding s3 l3 by (simp add: ErrTooLong_def)
  from 1 2 3 show ?thesis by simp
qed

section \<open>Two runs over the same input\<close>

lemma header_length:
  "length id1 = length id2 \<Longrightarrow> length (header id1 ts) = length (header id2 ts)"
  by (simp add: header_def)

lemma sameButIDSegment_refl: "sameButIDSegment a a"
  by (simp add: sameButIDSegment_def)

lemma sameButIDSegment_length: "sameButIDSegment a b \<Longrightarrow> length a = length b"
  by (auto simp: sameButIDSegment_def isRequestID_def intro: header_length)

lemma isRequestID_EncodeToString: "isRequestID (EncodeToString (map g [0..<12]))"
  unfolding isRequestID_def
  using EncodeToString_set[of "map g [0..<12]"]
  by (simp add: EncodeToString_length hextable_def)

text \<open>
  One iteration in two runs whose states agree in the counter, in the number of calls
  of the random source and, except for the identifiers, in what was written: either
  both go on, or both return with the same error.
\<close>

lemma loopBody_two_runs:
  assumes w: "\<forall>h h' d d'. list_all2 sameButIDSegment h h' \<and> sameButIDSegment d d' \<longrightarrow> w h d = w h' d'"
    and rnd: "\<forall>k. isl (rnd1 k) = isl (rnd2 k)"
    and eq: "randCalls st1 = randCalls st2" "processedCount st1 = processedCount st2"
      "list_all2 sameButIDSegment (written st1) (written st2)"
  shows "(\<exists>st1' st2' recs1 recs2.
      loopBody p rnd1 w line st1 = Continue st1' \<and> loopBody p rnd2 w line st2 = Continue st2'
      \<and> written st1' = written st1 @ framed recs1 \<and> written st2' = written st2 @ framed recs2
      \<and> list_all2 sameButID recs1 recs2
      \<and> randCalls st1' = randCalls st2' \<and> processedCount st1' = processedCount st2'
      \<and> processedCount st1' = processedCount st1 + length recs1)
    \<or> (\<exists>st1' st2' e part1 part2.
      loopBody p rnd1 w line st1 = Return st1' e \<and> loopBody p rnd2 w line st2 = Return st2' e
      \<and> written st1' = written st1 @ part1 \<and> written st2' = written st2 @ part2
      \<and> part1 \<noteq> [] \<and> map length part1 = map length part2 \<and> tl part1 = tl part2
      \<and> processedCount st1' = processedCount st1 \<and> processedCount st2' = processedCount st2)"
proof -
  have cont: ?thesis
    if "loopBody p rnd1 w line st1 = Continue st1'" "loopBody p rnd2 w line st2 = Continue st2'"
      "written st1' = written st1 @ framed recs1" "written st2' = written st2 @ framed recs2"
      "list_all2 sameButID recs1 recs2"
      "randCalls st1' = randCalls st2'" "processedCount st1' = processedCount st2'"
      "processedCount st1' = processedCount st1 + length recs1"
    for st1' st2' recs1 recs2
    using that by blast
  have ret: ?thesis
    if "loopBody p rnd1 w line st1 = Return st1' e" "loopBody p rnd2 w line st2 = Return st2' e"
      "written st1' = written st1 @ part1" "written st2' = written st2 @ part2"
      "part1 \<noteq> []" "map length part1 = map length part2" "tl part1 = tl part2"
      "processedCount st1' = processedCount st1" "processedCount st2' = processedCount st2"
    for st1' st2' e part1 part2
    using that by blast
  show ?thesis
  proof (cases "line = [] \<or> malformed p line \<or> extractRequestLine line = None")
    case True
    then have "loopBody p rnd1 w line st1 = Continue st1" "loopBody p rnd2 w line st2 = Continue st2"
      by (simp_all add: loopBody_skip)
    then show ?thesis
      by (rule cont[where ?recs1.0 = "[]" and ?recs2.0 = "[]"]) (simp_all add: framed_def eq)
  next
    case False
    then obtain rl where a: "line \<noteq> []" "\<not> malformed p line" "extractRequestLine line = Some rl"
      by auto
    show ?thesis
    proof (cases "rnd1 (randCalls st1)")
      case (Inl e1)
      with rnd eq obtain e2 where e2: "rnd2 (randCalls st2) = Inl e2"
        by (metis isl_def)
      have "loopBody p rnd1 w line st1 = Continue (st1\<lparr>randCalls := Suc (randCalls st1)\<rparr>)"
        "loopBody p rnd2 w line st2 = Continue (st2\<lparr>randCalls := Suc (randCalls st2)\<rparr>)"
        using a Inl e2 by (simp_all add: loopBody_no_id)
      then show ?thesis
        by (rule cont[where ?recs1.0 = "[]" and ?recs2.0 = "[]"]) (simp_all add: framed_def eq)
    next
      case (Inr g1)
      with rnd eq obtain g2 where g2: "rnd2 (randCalls st2) = Inr g2"
        by (metis sum.disc(2) sum.collapse(2))
      let ?ts = "extractTimestamp line"
      let ?q = "rl @ [CR, LF, CR, LF, LF]"
      let ?d = "gorPayloadDelimiter @ [LF]"
      let ?h1 = "header (EncodeToString (map g1 [0..<12])) ?ts"
      let ?h2 = "header (EncodeToString (map g2 [0..<12])) ?ts"
      let ?s1 = "st1\<lparr>randCalls := Suc (randCalls st1)\<rparr>"
      let ?s2 = "st2\<lparr>randCalls := Suc (randCalls st2)\<rparr>"
      have hl: "length ?h1 = length ?h2"
        by (rule header_length) (simp add: EncodeToString_length)
      have sb: "sameButID (?h1, ?q) (?h2, ?q)"
        unfolding sameButID_def
        by (intro conjI exI[of _ "EncodeToString (map g1 [0..<12])"]
            exI[of _ "EncodeToString (map g2 [0..<12])"] exI[of _ ?ts])
          (simp_all add: isRequestID_EncodeToString)
      have sh: "sameButIDSegment ?h1 ?h2"
        unfolding sameButIDSegment_def
        by (intro disjI2 conjI exI[of _ "EncodeToString (map g1 [0..<12])"]
            exI[of _ "EncodeToString (map g2 [0..<12])"] exI[of _ ?ts])
          (simp_all add: isRequestID_EncodeToString)
      have s1: "list_all2 sameButIDSegment (written st1 @ [?h1]) (written st2 @ [?h2])"
        using eq(3) sh by (simp add: list_all2_appendI)
      have s2: "list_all2 sameButIDSegment (written st1 @ [?h1, ?q]) (written st2 @ [?h2, ?q])"
        using eq(3) sh by (simp add: list_all2_appendI sameButIDSegment_refl)
      have b1: "loopBody p rnd1 w line st1 = writeRecord w (EncodeToString (map g1 [0..<12])) ?ts rl ?s1"
        and b2: "loopBody p rnd2 w line st2 = writeRecord w (EncodeToString (map g2 [0..<12])) ?ts rl ?s2"
        using a Inr g2 by (simp_all add: loopBody_write)
      have ob: "w h d = w h' d'" if "list_all2 sameButIDSegment h h'" "sameButIDSegment d d'"
        for h h' d d'
        using w that by blast
      have w0: "w (written st1) ?h1 = w (written st2) ?h2"
        using eq(3) sh by (rule ob)
      have w1: "w (written st1 @ [?h1]) ?q = w (written st2 @ [?h2]) ?q"
        using s1 sameButIDSegment_refl by (rule ob)
      have w2: "w (written st1 @ [?h1, ?q]) ?d = w (written st2 @ [?h2, ?q]) ?d"
        using s2 sameButIDSegment_refl by (rule ob)
      show ?thesis
      proof (cases "w (written st1) ?h1")
        case (ShortWrite n e)
        then have "loopBody p rnd1 w line st1 =
            Return (?s1\<lparr>written := written st1 @ [take n ?h1]\<rparr>) (Wrapf ''failed to write header'' e)"
          "loopBody p rnd2 w line st2 =
            Return (?s2\<lparr>written := written st2 @ [take n ?h2]\<rparr>) (Wrapf ''failed to write header'' e)"
          unfolding b1 b2 using w0 by (simp_all add: writeRecord_cases)
        then show ?thesis
          by (rule ret[where ?part1.0 = "[take n ?h1]" and ?part2.0 = "[take n ?h2]"])
            (simp_all add: hl)
      next
        case Written
        note x0 = this
        show ?thesis
        proof (cases "w (written st1 @ [?h1]) ?q")
          case (ShortWrite n e)
          then have "loopBody p rnd1 w line st1 =
              Return (?s1\<lparr>written := written st1 @ [?h1, take n ?q]\<rparr>)
                (Wrapf ''failed to write request line'' e)"
            "loopBody p rnd2 w line st2 =
              Return (?s2\<lparr>written := written st2 @ [?h2, take n ?q]\<rparr>)
                (Wrapf ''failed to write request line'' e)"
            unfolding b1 b2 using x0 w0 w1 by (simp_all add: writeRecord_cases)
          then show ?thesis
            by (rule ret[where ?part1.0 = "[?h1, take n ?q]" and ?part2.0 = "[?h2, take n ?q]"])
              (simp_all add: hl)
        next
          case Written
          note x1 = this
          show ?thesis
          proof (cases "w (written st1 @ [?h1, ?q]) ?d")
            case (ShortWrite n e)
            then have "loopBody p rnd1 w line st1 =
                Return (?s1\<lparr>written := written st1 @ [?h1, ?q, take n ?d]\<rparr>)
                  (Wrapf ''failed to write delimiter'' e)"
              "loopBody p rnd2 w line st2 =
                Return (?s2\<lparr>written := written st2 @ [?h2, ?q, take n ?d]\<rparr>)
                  (Wrapf ''failed to write delimiter'' e)"
              unfolding b1 b2 using x0 x1 w0 w1 w2 by (simp_all add: writeRecord_cases)
            then show ?thesis
              by (rule ret[where ?part1.0 = "[?h1, ?q, take n ?d]" and ?part2.0 = "[?h2, ?q, take n ?d]"])
                (simp_all add: hl)
          next
            case Written
            then have "loopBody p rnd1 w line st1 =
                Continue (?s1\<lparr>written := written st1 @ [?h1, ?q, ?d],
                              processedCount := Suc (processedCount st1)\<rparr>)"
              "loopBody p rnd2 w line st2 =
                Continue (?s2\<lparr>written := written st2 @ [?h2, ?q, ?d],
                              processedCount := Suc (processedCount st2)\<rparr>)"
              unfolding b1 b2 using x0 x1 w0 w1 w2 by (simp_all add: writeRecord_cases)
            then show ?thesis
              by (rule cont[where ?recs1.0 = "[(?h1, ?q)]" and ?recs2.0 = "[(?h2, ?q)]"])
                (simp_all add: framed_single eq sb)
          qed
        qed
      qed
    qed
  qed
qed

lemma sameButID_segments:
  "list_all2 sameButID recs1 recs2 \<Longrightarrow> list_all2 sameButIDSegment (framed recs1) (framed recs2)"
proof (induction recs1 recs2 rule: list_all2_induct)
  case Nil
  show ?case by (simp add: framed_def)
next
  case (Cons r1 recs1 r2 recs2)
  obtain h1 q1 h2 q2 where r: "r1 = (h1, q1)" "r2 = (h2, q2)" by (cases r1, cases r2)
  with Cons(1) have "q1 = q2" "sameButIDSegment h1 h2"
    unfolding sameButID_def sameButIDSegment_def by auto
  moreover have "framed (r1 # recs1) = [h1, q1, gorPayloadDelimiter @ [LF]] @ framed recs1"
    "framed (r2 # recs2) = [h2, q2, gorPayloadDelimiter @ [LF]] @ framed recs2"
    unfolding r by (simp_all add: framed_def)
  ultimately show ?case using Cons(3) by (simp add: sameButIDSegment_refl)
qed

lemma loop_two_runs:
  assumes w: "\<forall>h h' d d'. list_all2 sameButIDSegment h h' \<and> sameButIDSegment d d' \<longrightarrow> w h d = w h' d'"
    and rnd: "\<forall>k. isl (rnd1 k) = isl (rnd2 k)"
  shows "randCalls st1 = randCalls st2 \<Longrightarrow> processedCount st1 = processedCount st2 \<Longrightarrow>
    list_all2 sameButIDSegment (written st1) (written st2) \<Longrightarrow>
    \<exists>o1 o2 st1' st2' recs1 recs2 part1 part2.
      loop p rnd1 w ls st1 = o1 \<and> loop p rnd2 w ls st2 = o2
      \<and> ((o1 = Continue st1' \<and> o2 = Continue st2' \<and> part1 = [])
          \<or> (\<exists>e. o1 = Return st1' e \<and> o2 = Return st2' e \<and> part1 \<noteq> []))
      \<and> written st1' = written st1 @ framed recs1 @ part1
      \<and> written st2' = written st2 @ framed recs2 @ part2
      \<and> list_all2 sameButID recs1 recs2 \<and> map length part1 = map length part2 \<and> tl part1 = tl part2
      \<and> processedCount st1' = processedCount st2'
      \<and> processedCount st1' = processedCount st1 + length recs1"
proof (induction ls arbitrary: st1 st2)
  case Nil
  have "loop p rnd1 w [] st1 = Continue st1 \<and> loop p rnd2 w [] st2 = Continue st2
      \<and> ((Continue st1 = Continue st1 \<and> Continue st2 = Continue st2 \<and> ([] :: string list) = [])
          \<or> (\<exists>e. Continue st1 = Return st1 e \<and> Continue st2 = Return st2 e \<and> ([] :: string list) \<noteq> []))
      \<and> written st1 = written st1 @ framed [] @ [] \<and> written st2 = written st2 @ framed [] @ []
      \<and> list_all2 sameButID [] [] \<and> map length ([] :: string list) = map length ([] :: string list)
      \<and> tl ([] :: string list) = tl ([] :: string list)
      \<and> processedCount st1 = processedCount st2
      \<and> processedCount st1 = processedCount st1 + length ([] :: (string \<times> string) list)"
    using Nil by (simp add: framed_def)
  then show ?case by blast
next
  case (Cons line ls)
  from loopBody_two_runs[OF w rnd Cons.prems, of p line]
  show ?case
  proof
    assume "\<exists>st1' st2' recs1 recs2.
      loopBody p rnd1 w line st1 = Continue st1' \<and> loopBody p rnd2 w line st2 = Continue st2'
      \<and> written st1' = written st1 @ framed recs1 \<and> written st2' = written st2 @ framed recs2
      \<and> list_all2 sameButID recs1 recs2
      \<and> randCalls st1' = randCalls st2' \<and> processedCount st1' = processedCount st2'
      \<and> processedCount st1' = processedCount st1 + length recs1"
    then obtain a1 a2 r1 r2 where b: "loopBody p rnd1 w line st1 = Continue a1"
        "loopBody p rnd2 w line st2 = Continue a2"
        "written a1 = written st1 @ framed r1" "written a2 = written st2 @ framed r2"
        "list_all2 sameButID r1 r2" "randCalls a1 = randCalls a2"
        "processedCount a1 = processedCount a2" "processedCount a1 = processedCount st1 + length r1"
      by blast
    have len: "list_all2 sameButIDSegment (written a1) (written a2)"
      unfolding b(3,4) using Cons.prems(3) sameButID_segments[OF b(5)] by (rule list_all2_appendI)
    from Cons.IH[OF b(6,7) len]
    obtain o1 o2 st1' st2' recs1 recs2 part1 part2 where c:
        "loop p rnd1 w ls a1 = o1" "loop p rnd2 w ls a2 = o2"
        "(o1 = Continue st1' \<and> o2 = Continue st2' \<and> part1 = [])
          \<or> (\<exists>e. o1 = Return st1' e \<and> o2 = Return st2' e \<and> part1 \<noteq> [])"
        "written st1' = written a1 @ framed recs1 @ part1"
        "written st2' = written a2 @ framed recs2 @ part2"
        "list_all2 sameButID recs1 recs2" "map length part1 = map length part2" "tl part1 = tl part2"
        "processedCount st1' = processedCount st2'"
        "processedCount st1' = processedCount a1 + length recs1"
      by blast
    have "loop p rnd1 w (line # ls) st1 = o1" "loop p rnd2 w (line # ls) st2 = o2"
      using b(1,2) c(1,2) by simp_all
    moreover have "written st1' = written st1 @ framed (r1 @ recs1) @ part1"
      "written st2' = written st2 @ framed (r2 @ recs2) @ part2"
      using b(3,4) c(4,5) by (simp_all add: framed_append)
    moreover have "list_all2 sameButID (r1 @ recs1) (r2 @ recs2)"
      using b(5) c(6) by (rule list_all2_appendI)
    moreover have "processedCount st1' = processedCount st1 + length (r1 @ recs1)"
      using b(8) c(10) by simp
    ultimately show ?thesis using c(3,7,8,9) by blast
  next
    assume "\<exists>st1' st2' e part1 part2.
      loopBody p rnd1 w line st1 = Return st1' e \<and> loopBody p rnd2 w line st2 = Return st2' e
      \<and> written st1' = written st1 @ part1 \<and> written st2' = written st2 @ part2
      \<and> part1 \<noteq> [] \<and> map length part1 = map length part2 \<and> tl part1 = tl part2
      \<and> processedCount st1' = processedCount st1 \<and> processedCount st2' = processedCount st2"
    then obtain st1' st2' e part1 part2 where b: "loopBody p rnd1 w line st1 = Return st1' e"
        "loopBody p rnd2 w line st2 = Return st2' e"
        "written st1' = written st1 @ part1" "written st2' = written st2 @ part2"
        "part1 \<noteq> []" "map length part1 = map length part2" "tl part1 = tl part2"
        "processedCount st1' = processedCount st1" "processedCount st2' = processedCount st2"
      by blast
    have "loop p rnd1 w (line # ls) st1 = Return st1' e" "loop p rnd2 w (line # ls) st2 = Return st2' e"
      using b(1,2) by simp_all
    moreover have "written st1' = written st1 @ framed [] @ part1"
      "written st2' = written st2 @ framed [] @ part2"
      using b(3,4) by (simp_all add: framed_def)
    moreover have "list_all2 sameButID [] []" by simp
    moreover have "processedCount st1' = processedCount st2'"
      "processedCount st1' = processedCount st1 + length ([] :: (string \<times> string) list)"
      using b(8,9) Cons.prems(2) by simp_all
    ultimately show ?thesis using b(5,6,7) by blast
  qed
qed

lemma loopBody_example_shifted:
  "loopBody acceptAll shiftedRand w exampleLine st =
     writeRecord w (EncodeToString (map (\<lambda>i. of_nat (16 * Suc (randCalls st) + i)) [0..<12]))
       1759321811000000000 ''GET /api/v1/users HTTP/1.1'' (st\<lparr>randCalls := Suc (randCalls st)\<rparr>)"
proof -
  have "exampleLine \<noteq> []" by (simp add: exampleLine_def)
  moreover have "\<not> malformed acceptAll exampleLine" by (simp add: malformed_def acceptAll_def)
  moreover have "shiftedRand (randCalls st) = Inr (\<lambda>i. of_nat (16 * Suc (randCalls st) + i))"
    by (simp add: shiftedRand_def)
  ultimately show ?thesis
    using extractRequestLine_example extractTimestamp_example
    by (simp add: loopBody_write)
qed

text \<open>
  Claim C8 says that two runs over the same input return the same count, whatever the
  random source does. The identifiers are bytes of the headers, and the headers are
  given to the writer: a writer can react to them. Below, the writer takes nothing of a
  header whose identifier begins with \<^verbatim>\<open>00\<close>, and neither random source fails: over
  the input that holds the line of the scenario, the run whose identifier is
  \<^verbatim>\<open>000102030405060708090a0b\<close> returns the count 0, with the error of the write, and the
  run whose identifier is \<^verbatim>\<open>101112131415161718191a1b\<close> returns the count 1. The random
  source can also fail, and then lines 105 to 109 skip the line: with a writer that
  takes everything, the run with a failing source returns 0 and the run with a working
  source returns 1.
\<close>

theorem count_differs_between_runs:
  "countingRand 0 = Inr (\<lambda>i. of_nat (16 * 0 + i))
   \<and> shiftedRand 0 = Inr (\<lambda>i. of_nat (16 * Suc 0 + i))
   \<and> processLogs \<lparr>content = exampleLine @ [LF], failure = None\<rparr> refuseID00 acceptAll countingRand
       = (0, Some (Wrapf ''failed to write header'' (Err ''identifier refused'')),
          \<lparr>processedCount = 0, randCalls = 1, written = [[]]\<rparr>)
   \<and> processLogs \<lparr>content = exampleLine @ [LF], failure = None\<rparr> refuseID00 acceptAll shiftedRand
       = (1, None, \<lparr>processedCount = 1, randCalls = 1, written =
           [''1 101112131415161718191a1b 1759321811000000000 0'' @ [LF],
            ''GET /api/v1/users HTTP/1.1'' @ [CR, LF, CR, LF, LF],
            gorPayloadDelimiter @ [LF]]\<rparr>)
   \<and> fst (processLogs \<lparr>content = exampleLine @ [LF], failure = None\<rparr> okWriter acceptAll failingRand) = 0
   \<and> fst (processLogs \<lparr>content = exampleLine @ [LF], failure = None\<rparr> okWriter acceptAll countingRand) = 1"
proof -
  have s: "Scan \<lparr>content = exampleLine @ [LF], failure = None\<rparr> = ([exampleLine], None)"
    by (simp add: Scan_def scan_example)
  have ne: "exampleLine \<noteq> []" by (simp add: exampleLine_def)
  have d: "gorPayloadDelimiter @ [LF] \<noteq> []" by simp
  have 1: "processLogs \<lparr>content = exampleLine @ [LF], failure = None\<rparr> refuseID00 acceptAll countingRand
       = (0, Some (Wrapf ''failed to write header'' (Err ''identifier refused'')),
          \<lparr>processedCount = 0, randCalls = 1, written = [[]]\<rparr>)"
    by (simp add: processLogs_result s loopBody_example writeRecord_cases refuseID00_def initial_def
        id_0 header_example)
  have l2: "loop acceptAll shiftedRand refuseID00 [exampleLine] initial =
      Continue \<lparr>processedCount = 1, randCalls = 1, written =
           [''1 101112131415161718191a1b 1759321811000000000 0'' @ [LF],
            ''GET /api/v1/users HTTP/1.1'' @ [CR, LF, CR, LF, LF],
            gorPayloadDelimiter @ [LF]]\<rparr>"
    by (simp add: loopBody_example_shifted writeRecord_cases refuseID00_def
        initial_def id_1 header_example gorPayloadDelimiter_bytes)
  have 2: "processLogs \<lparr>content = exampleLine @ [LF], failure = None\<rparr> refuseID00 acceptAll shiftedRand
       = (1, None, \<lparr>processedCount = 1, randCalls = 1, written =
           [''1 101112131415161718191a1b 1759321811000000000 0'' @ [LF],
            ''GET /api/v1/users HTTP/1.1'' @ [CR, LF, CR, LF, LF],
            gorPayloadDelimiter @ [LF]]\<rparr>)"
    by (simp only: processLogs_result s fst_conv snd_conv l2) simp
  have "loopBody acceptAll failingRand okWriter exampleLine initial = Continue (initial\<lparr>randCalls := 1\<rparr>)"
    using ne by (simp add: loopBody_def malformed_def acceptAll_def extractRequestLine_example
        generateRequestID_def failingRand_def initial_def)
  then have 3: "fst (processLogs \<lparr>content = exampleLine @ [LF], failure = None\<rparr> okWriter acceptAll failingRand) = 0"
    by (simp add: processLogs_result s) (simp add: initial_def)
  from 1 2 3 show ?thesis by (simp add: processLogs_example countingRand_def shiftedRand_def)
qed

text \<open>
  Claim C8, amended. Take two runs over the same input, with the same parser and the
  same writer, where what the writer does with a call does not depend on the
  identifiers, that is, it is the same for two calls that agree, in what the writer was
  given before and in what it is given now, except for the identifiers of the headers,
  and where the random sources fail at the same calls (for instance never). The two runs
  return the same count and the same error. They write the same number of complete
  records, which agree record by record in the request line segment and in the
  timestamp of the header; only the identifiers can differ. After the complete records
  comes nothing when no error is returned, and otherwise the segments of the record
  whose write failed, of the same lengths in both runs and the same after the header.
\<close>

theorem runs_differ_only_in_ids:
  assumes "\<forall>h h' d d'. list_all2 sameButIDSegment h h' \<and> sameButIDSegment d d' \<longrightarrow> w h d = w h' d'"
    and "\<forall>k. isl (rnd1 k) = isl (rnd2 k)"
  shows "\<exists>n err st1 st2 recs1 recs2 part1 part2.
      processLogs r w p rnd1 = (n, err, st1) \<and> processLogs r w p rnd2 = (n, err, st2)
      \<and> written st1 = framed recs1 @ part1 \<and> written st2 = framed recs2 @ part2
      \<and> length recs1 = n \<and> length recs2 = n
      \<and> list_all2 sameButID recs1 recs2
      \<and> map length part1 = map length part2 \<and> tl part1 = tl part2
      \<and> (err = None \<longrightarrow> part1 = [] \<and> part2 = [])"
proof -
  have i: "randCalls initial = randCalls initial" "processedCount initial = processedCount initial"
    "list_all2 sameButIDSegment (written initial) (written initial)"
    by (simp_all add: initial_def)
  from loop_two_runs[OF assms i, of p "fst (Scan r)"]
  obtain o1 o2 st1 st2 recs1 recs2 part1 part2 where c:
      "loop p rnd1 w (fst (Scan r)) initial = o1" "loop p rnd2 w (fst (Scan r)) initial = o2"
      "(o1 = Continue st1 \<and> o2 = Continue st2 \<and> part1 = [])
          \<or> (\<exists>e. o1 = Return st1 e \<and> o2 = Return st2 e \<and> part1 \<noteq> [])"
      "written st1 = written initial @ framed recs1 @ part1"
      "written st2 = written initial @ framed recs2 @ part2"
      "list_all2 sameButID recs1 recs2" "map length part1 = map length part2" "tl part1 = tl part2"
      "processedCount st1 = processedCount st2"
      "processedCount st1 = processedCount initial + length recs1"
    by blast
  have wr: "written st1 = framed recs1 @ part1" "written st2 = framed recs2 @ part2"
    using c(4,5) by (simp_all add: initial_def)
  have n: "processedCount st1 = length recs1" "processedCount st2 = length recs1"
    "length recs2 = length recs1"
    using c(6,9,10) by (simp_all add: initial_def list_all2_lengthD)
  from c(3) show ?thesis
  proof
    assume a: "o1 = Continue st1 \<and> o2 = Continue st2 \<and> part1 = []"
    let ?err = "map_option (Wrapf ''error reading input file'') (snd (Scan r))"
    have "processLogs r w p rnd1 = (length recs1, ?err, st1)"
      "processLogs r w p rnd2 = (length recs1, ?err, st2)"
      using a c(1,2) n by (simp_all add: processLogs_result)
    moreover have "part1 = [] \<and> part2 = []" using a c(7) by simp
    ultimately show ?thesis using wr n(3) c(6,7,8) by blast
  next
    assume "\<exists>e. o1 = Return st1 e \<and> o2 = Return st2 e \<and> part1 \<noteq> []"
    then obtain e where a: "o1 = Return st1 e" "o2 = Return st2 e" by blast
    have "processLogs r w p rnd1 = (length recs1, Some e, st1)"
      "processLogs r w p rnd2 = (length recs1, Some e, st2)"
      using a c(1,2) n by (simp_all add: processLogs_result)
    moreover have "Some e = None \<longrightarrow> part1 = [] \<and> part2 = []" by simp
    ultimately show ?thesis using wr n(3) c(6,7,8) by blast
  qed
qed

theorem runs_differ_only_in_ids_witness:
  "(\<exists>n err st1 st2 recs1 recs2.
      processLogs \<lparr>content = exampleLine @ [LF], failure = None\<rparr> okWriter acceptAll countingRand
        = (n, err, st1)
      \<and> processLogs \<lparr>content = exampleLine @ [LF], failure = None\<rparr> okWriter acceptAll shiftedRand
        = (n, err, st2)
      \<and> written st1 = framed recs1 \<and> written st2 = framed recs2
      \<and> length recs1 = n \<and> length recs2 = n
      \<and> list_all2 sameButID recs1 recs2)
   \<and> processLogs \<lparr>content = exampleLine @ [LF], failure = None\<rparr> okWriter acceptAll countingRand =
     (1, None, \<lparr>processedCount = 1, randCalls = 1, written =
        [''1 000102030405060708090a0b 1759321811000000000 0'' @ [LF],
         ''GET /api/v1/users HTTP/1.1'' @ [CR, LF, CR, LF, LF],
         gorPayloadDelimiter @ [LF]]\<rparr>)
   \<and> processLogs \<lparr>content = exampleLine @ [LF], failure = None\<rparr> okWriter acceptAll shiftedRand =
     (1, None, \<lparr>processedCount = 1, randCalls = 1, written =
        [''1 101112131415161718191a1b 1759321811000000000 0'' @ [LF],
         ''GET /api/v1/users HTTP/1.1'' @ [CR, LF, CR, LF, LF],
         gorPayloadDelimiter @ [LF]]\<rparr>)"
proof -
  have a: "\<forall>h h' d d'. list_all2 sameButIDSegment h h' \<and> sameButIDSegment d d' \<longrightarrow>
      okWriter h d = okWriter h' d'"
    by (simp add: okWriter_def)
  have b: "\<forall>k. isl (countingRand k) = isl (shiftedRand k)"
    by (simp add: countingRand_def shiftedRand_def)
  have s: "Scan \<lparr>content = exampleLine @ [LF], failure = None\<rparr> = ([exampleLine], None)"
    by (simp add: Scan_def scan_example)
  have 2: "processLogs \<lparr>content = exampleLine @ [LF], failure = None\<rparr> okWriter acceptAll shiftedRand =
     (1, None, \<lparr>processedCount = 1, randCalls = 1, written =
        [''1 101112131415161718191a1b 1759321811000000000 0'' @ [LF],
         ''GET /api/v1/users HTTP/1.1'' @ [CR, LF, CR, LF, LF],
         gorPayloadDelimiter @ [LF]]\<rparr>)"
    by (simp add: processLogs_result s loopBody_example_shifted writeRecord_cases okWriter_def
        initial_def id_1 header_example)
  from runs_differ_only_in_ids[OF a b, of "\<lparr>content = exampleLine @ [LF], failure = None\<rparr>" acceptAll]
  obtain n err st1 st2 recs1 recs2 part1 part2 where c:
      "processLogs \<lparr>content = exampleLine @ [LF], failure = None\<rparr> okWriter acceptAll countingRand
        = (n, err, st1)"
      "processLogs \<lparr>content = exampleLine @ [LF], failure = None\<rparr> okWriter acceptAll shiftedRand
        = (n, err, st2)"
      "written st1 = framed recs1 @ part1" "written st2 = framed recs2 @ part2"
      "length recs1 = n" "length recs2 = n" "list_all2 sameButID recs1 recs2"
      "err = None \<longrightarrow> part1 = [] \<and> part2 = []"
    by blast
  from c(1) have "err = None" by (simp add: processLogs_example)
  with c(8) have "part1 = []" "part2 = []" by simp_all
  with c(1-7) have "\<exists>n err st1 st2 recs1 recs2.
      processLogs \<lparr>content = exampleLine @ [LF], failure = None\<rparr> okWriter acceptAll countingRand
        = (n, err, st1)
      \<and> processLogs \<lparr>content = exampleLine @ [LF], failure = None\<rparr> okWriter acceptAll shiftedRand
        = (n, err, st2)
      \<and> written st1 = framed recs1 \<and> written st2 = framed recs2
      \<and> length recs1 = n \<and> length recs2 = n
      \<and> list_all2 sameButID recs1 recs2"
    by auto
  with processLogs_example 2 show ?thesis by (intro conjI)
qed

end
